theory Spec2Isabelle
  imports Main
begin

section \<open>Multiple dispatch of index.js: values, objects and the heap\<close>

text \<open>
  The development embeds \<^verbatim>\<open>src/index.js\<close>: \<^verbatim>\<open>gensym\<close>, \<^verbatim>\<open>procedure\<close>, and inside it
  \<^verbatim>\<open>get_table\<close>, \<^verbatim>\<open>method\<close>, \<^verbatim>\<open>lookup\<close> and \<^verbatim>\<open>dispatch\<close>.

  JavaScript values are the primitives and references to heap objects.  Numbers are the
  integer-valued ones.  An object is modelled by the four slots the program reads:
  its internal prototype link, and its own properties \<^verbatim>\<open>constructor\<close>, \<^verbatim>\<open>prototype\<close>
  and \<^verbatim>\<open>__roles__\<close>.  A property read walks the prototype links, as in JavaScript.

  Scope of the model: objects are extensible, \<^verbatim>\<open>hasOwnProperty\<close> is the one of
  \<^verbatim>\<open>Object.prototype\<close>, and the tables \<^verbatim>\<open>STRINGS\<close> and \<^verbatim>\<open>NUMBERS\<close> are maps of their own keys;
  the predicate \<open>plain\<close> below names the strings on which such a map and the object of the
  source agree, and the statements about the tables of registered methods assume it.
\<close>

datatype val = Undefined | Null | Bool bool | Num int | Str string | Ref nat

datatype error = TypeError | NoApplicableMethod

text \<open>
  \<^verbatim>\<open>gensym(name)\<close> returns \<^verbatim>\<open>name + '_' + counter\<close>; the string is kept as the pair of its
  two parts.  A role name \<^verbatim>\<open>selector + ':' + i\<close> is kept as the pair of selector and index.
\<close>

type_synonym sym = "string \<times> nat"
type_synonym role = "sym \<times> nat"
type_synonym table = "role \<rightharpoonup> sym list"

record obj =
  proto :: val
  own_constructor :: "val option"
  own_prototype :: "val option"
  own_roles :: "table option"

type_synonym heap = "obj list"

record world =
  heap :: heap
  gensym_counter :: nat

record 'b proc =
  pname :: string
  selector :: sym
  METHODS :: "sym \<rightharpoonup> 'b"
  STRINGS :: "string \<rightharpoonup> table"
  NUMBERS :: "int \<rightharpoonup> table"
  TRUE_TABLE :: table
  FALSE_TABLE :: table
  NULL_TABLE :: table

subsection \<open>The built-in objects\<close>

definition OBJPROTO :: nat where "OBJPROTO = 0"
definition OBJECT :: nat where "OBJECT = 1"
definition FUNCTION :: nat where "FUNCTION = 2"
definition FUNPROTO :: nat where "FUNPROTO = 3"
definition STRING :: nat where "STRING = 4"
definition STRPROTO :: nat where "STRPROTO = 5"
definition NUMBER :: nat where "NUMBER = 6"
definition NUMPROTO :: nat where "NUMPROTO = 7"
definition BOOLEAN :: nat where "BOOLEAN = 8"
definition BOOLPROTO :: nat where "BOOLPROTO = 9"
definition ARRAY :: nat where "ARRAY = 10"
definition ARRPROTO :: nat where "ARRPROTO = 11"
definition ANY :: nat where "ANY = 12"
definition ANYPROTO :: nat where "ANYPROTO = 13"

text \<open>A constructor function: its link is \<^verbatim>\<open>Function.prototype\<close>, it owns \<^verbatim>\<open>prototype\<close>.\<close>

definition cons_obj :: "nat \<Rightarrow> obj" where
  "cons_obj p = \<lparr>proto = Ref FUNPROTO, own_constructor = None,
                 own_prototype = Some (Ref p), own_roles = None\<rparr>"

text \<open>The \<^verbatim>\<open>prototype\<close> object a function is created with: it owns \<^verbatim>\<open>constructor\<close>.\<close>

definition proto_obj :: "val \<Rightarrow> nat \<Rightarrow> obj" where
  "proto_obj link c = \<lparr>proto = link, own_constructor = Some (Ref c),
                       own_prototype = None, own_roles = None\<rparr>"

text \<open>An object made by \<^verbatim>\<open>new\<close> or a literal: only its link.\<close>

definition plain_obj :: "val \<Rightarrow> obj" where
  "plain_obj link = \<lparr>proto = link, own_constructor = None,
                     own_prototype = None, own_roles = None\<rparr>"

text \<open>
  The heap when index.js has been loaded: the built-in constructors with their prototypes,
  then \<^verbatim>\<open>function ANY() {}\<close> with \<^verbatim>\<open>ANY.prototype = {}\<close>.
\<close>

definition builtins :: heap where
  "builtins =
    [proto_obj Null OBJECT, cons_obj OBJPROTO,
     cons_obj FUNPROTO, proto_obj (Ref OBJPROTO) FUNCTION,
     cons_obj STRPROTO, proto_obj (Ref OBJPROTO) STRING,
     cons_obj NUMPROTO, proto_obj (Ref OBJPROTO) NUMBER,
     cons_obj BOOLPROTO, proto_obj (Ref OBJPROTO) BOOLEAN,
     cons_obj ARRPROTO, proto_obj (Ref OBJPROTO) ARRAY,
     cons_obj ANYPROTO, plain_obj (Ref OBJPROTO)]"

subsection \<open>Property reads\<close>

text \<open>
  The objects on the prototype links from a value, the value first.  The links of a heap
  never form a cycle, so a walk has at most as many members as the heap has objects; the
  first argument counts them.
\<close>

fun links :: "nat \<Rightarrow> heap \<Rightarrow> val \<Rightarrow> nat list" where
  "links 0 h v = []"
| "links (Suc k) h v =
    (case v of
       Ref a \<Rightarrow> (if a < length h then a # links k h (proto (h ! a)) else [])
     | _ \<Rightarrow> [])"

text \<open>A primitive is read through the prototype of its wrapper.\<close>

fun to_object :: "val \<Rightarrow> val" where
  "to_object (Str s) = Ref STRPROTO"
| "to_object (Num n) = Ref NUMPROTO"
| "to_object (Bool b) = Ref BOOLPROTO"
| "to_object v = v"

definition proto_chain :: "heap \<Rightarrow> val \<Rightarrow> nat list" where
  "proto_chain h v = links (length h) h (to_object v)"

fun first_own :: "(obj \<Rightarrow> 'a option) \<Rightarrow> heap \<Rightarrow> nat list \<Rightarrow> 'a option" where
  "first_own f h [] = None"
| "first_own f h (a # as) = (case f (h ! a) of Some x \<Rightarrow> Some x | None \<Rightarrow> first_own f h as)"

text \<open>\<^verbatim>\<open>v.constructor\<close> and \<^verbatim>\<open>v.prototype\<close>: a TypeError on null and undefined.\<close>

definition get_prop :: "(obj \<Rightarrow> val option) \<Rightarrow> heap \<Rightarrow> val \<Rightarrow> error + val" where
  "get_prop f h v =
    (case v of
       Undefined \<Rightarrow> Inl TypeError
     | Null \<Rightarrow> Inl TypeError
     | _ \<Rightarrow> (case first_own f h (proto_chain h v) of
               Some x \<Rightarrow> Inr x
             | None \<Rightarrow> Inr Undefined))"

subsection \<open>Role tables\<close>

text \<open>
  \<^verbatim>\<open>get_table\<close> returns a reference to a table: one of the tables the procedure keeps for
  primitives, or the \<^verbatim>\<open>__roles__\<close> object found from a heap object.
\<close>

datatype tref = TStr string | TNum int | TTrue | TFalse | TNull | TObj nat

text \<open>
  \<^verbatim>\<open>value.hasOwnProperty\<close> is found when the links of the value reach \<^verbatim>\<open>Object.prototype\<close>;
  otherwise the call is a TypeError.
\<close>

definition has_hasOwnProperty :: "heap \<Rightarrow> nat \<Rightarrow> bool" where
  "has_hasOwnProperty h a = List.member (proto_chain h (Ref a)) OBJPROTO"

text \<open>\<^verbatim>\<open>value.__roles__\<close>: the first object on the links that owns \<^verbatim>\<open>__roles__\<close>.\<close>

definition roles_owner :: "heap \<Rightarrow> nat \<Rightarrow> nat option" where
  "roles_owner h a = List.find (\<lambda>b. own_roles (h ! b) \<noteq> None) (proto_chain h (Ref a))"

definition get_table ::
  "'b proc \<Rightarrow> heap \<Rightarrow> val \<Rightarrow> bool \<Rightarrow> error + (tref option \<times> 'b proc \<times> heap)" where
  "get_table p h v create =
    (case v of
       Str s \<Rightarrow>
         (case STRINGS p s of
            Some t \<Rightarrow> Inr (Some (TStr s), p, h)
          | None \<Rightarrow>
              if create then Inr (Some (TStr s), p\<lparr>STRINGS := (STRINGS p)(s \<mapsto> Map.empty)\<rparr>, h)
              else Inr (None, p, h))
     | Num n \<Rightarrow>
         (case NUMBERS p n of
            Some t \<Rightarrow> Inr (Some (TNum n), p, h)
          | None \<Rightarrow>
              if create then Inr (Some (TNum n), p\<lparr>NUMBERS := (NUMBERS p)(n \<mapsto> Map.empty)\<rparr>, h)
              else Inr (None, p, h))
     | Bool b \<Rightarrow> Inr (Some (if b then TTrue else TFalse), p, h)
     | Null \<Rightarrow> Inr (Some TNull, p, h)
     | Undefined \<Rightarrow> Inl TypeError
     | Ref a \<Rightarrow>
         if \<not> has_hasOwnProperty h a then Inl TypeError
         else
           let hasRoles = (own_roles (h ! a) \<noteq> None);
               h' = (if create \<and> \<not> hasRoles
                     then h[a := (h ! a)\<lparr>own_roles := Some Map.empty\<rparr>] else h)
           in Inr (map_option TObj (roles_owner h' a), p, h'))"

text \<open>Reading and writing through a table reference.\<close>

definition table_of :: "'b proc \<Rightarrow> heap \<Rightarrow> tref \<Rightarrow> table" where
  "table_of p h r =
    (case r of
       TStr s \<Rightarrow> (case STRINGS p s of Some t \<Rightarrow> t | None \<Rightarrow> Map.empty)
     | TNum n \<Rightarrow> (case NUMBERS p n of Some t \<Rightarrow> t | None \<Rightarrow> Map.empty)
     | TTrue \<Rightarrow> TRUE_TABLE p
     | TFalse \<Rightarrow> FALSE_TABLE p
     | TNull \<Rightarrow> NULL_TABLE p
     | TObj a \<Rightarrow> (case own_roles (h ! a) of Some t \<Rightarrow> t | None \<Rightarrow> Map.empty))"

definition table_set :: "'b proc \<Rightarrow> heap \<Rightarrow> tref \<Rightarrow> table \<Rightarrow> 'b proc \<times> heap" where
  "table_set p h r t =
    (case r of
       TStr s \<Rightarrow> (p\<lparr>STRINGS := (STRINGS p)(s \<mapsto> t)\<rparr>, h)
     | TNum n \<Rightarrow> (p\<lparr>NUMBERS := (NUMBERS p)(n \<mapsto> t)\<rparr>, h)
     | TTrue \<Rightarrow> (p\<lparr>TRUE_TABLE := t\<rparr>, h)
     | TFalse \<Rightarrow> (p\<lparr>FALSE_TABLE := t\<rparr>, h)
     | TNull \<Rightarrow> (p\<lparr>NULL_TABLE := t\<rparr>, h)
     | TObj a \<Rightarrow> (p, h[a := (h ! a)\<lparr>own_roles := Some t\<rparr>]))"

text \<open>\<^verbatim>\<open>if (!table[rolename]) table[rolename] = []; table[rolename].push(methodname)\<close>\<close>

definition push_role :: "table \<Rightarrow> role \<Rightarrow> sym \<Rightarrow> table" where
  "push_role t r m = t(r \<mapsto> (case t r of None \<Rightarrow> [] | Some ms \<Rightarrow> ms) @ [m])"

section \<open>procedure and method\<close>

definition gensym :: "string \<Rightarrow> world \<Rightarrow> sym \<times> world" where
  "gensym name w = ((name, gensym_counter w), w\<lparr>gensym_counter := gensym_counter w + 1\<rparr>)"

definition procedure :: "string \<Rightarrow> world \<Rightarrow> 'b proc \<times> world" where
  "procedure name w =
    (let (sel, w') = gensym name w
     in (\<lparr>pname = name, selector = sel, METHODS = Map.empty, STRINGS = Map.empty,
          NUMBERS = Map.empty, TRUE_TABLE = Map.empty, FALSE_TABLE = Map.empty,
          NULL_TABLE = Map.empty\<rparr>, w'))"

text \<open>The loop of \<^verbatim>\<open>method\<close> over its specializers, from index \<open>i\<close> on.\<close>

fun method_loop ::
  "sym \<Rightarrow> nat \<Rightarrow> val list \<Rightarrow> 'b proc \<Rightarrow> heap \<Rightarrow> error + ('b proc \<times> heap)" where
  "method_loop methodname i [] p h = Inr (p, h)"
| "method_loop methodname i (arg # rest) p h =
    (case get_table p h arg True of
       Inl e \<Rightarrow> Inl e
     | Inr (r, p', h') \<Rightarrow>
         (case r of
            None \<Rightarrow> Inl TypeError
          | Some tr \<Rightarrow>
              (case table_set p' h' tr (push_role (table_of p' h' tr) (selector p', i) methodname) of
                 (p'', h'') \<Rightarrow> method_loop methodname (Suc i) rest p'' h'')))"

text \<open>
  \<^verbatim>\<open>method\<close> of the source, under the name \<open>method_reg\<close> (the word itself is an Isar
  keyword).
\<close>

definition method_reg ::
  "'b proc \<Rightarrow> world \<Rightarrow> val list \<Rightarrow> 'b \<Rightarrow> error + ('b proc \<times> world)" where
  "method_reg p w specs body =
    (let (methodname, w') = gensym (pname p) w
     in case method_loop methodname 0 specs p (heap w') of
          Inl e \<Rightarrow> Inl e
        | Inr (p', h') \<Rightarrow> Inr (p'\<lparr>METHODS := (METHODS p')(methodname \<mapsto> body)\<rparr>, w'\<lparr>heap := h'\<rparr>))"

section \<open>lookup\<close>

subsection \<open>Rank vectors and their comparison\<close>

text \<open>
  A rank is \<^verbatim>\<open>{filled: 0, vector: []}\<close>.  The vector is a JavaScript array: writing at an
  index beyond its length leaves holes before the index.
\<close>

record rank =
  filled :: nat
  vector :: "nat option list"

definition array_set :: "nat option list \<Rightarrow> nat \<Rightarrow> nat \<Rightarrow> nat option list" where
  "array_set xs i x =
    (if i < length xs then xs[i := Some x]
     else xs @ replicate (i - length xs) None @ [Some x])"

text \<open>
  \<^verbatim>\<open>rank.vector < ranks[mostspecificmethod].vector\<close> compares two arrays: JavaScript converts
  each to a string, the elements in decimal joined by commas with a hole as the empty
  string, and compares the strings by their character codes.
\<close>

definition digit_char :: "nat \<Rightarrow> char" where
  "digit_char d = char_of (48 + d)"

function number_to_string :: "nat \<Rightarrow> string" where
  "number_to_string n =
    (if n < 10 then [digit_char n]
     else number_to_string (n div 10) @ [digit_char (n mod 10)])"
  by pat_completeness auto
termination by (relation "measure id") auto

declare number_to_string.simps [simp del]

fun array_to_string :: "nat option list \<Rightarrow> string" where
  "array_to_string [] = []"
| "array_to_string [x] = (case x of None \<Rightarrow> [] | Some n \<Rightarrow> number_to_string n)"
| "array_to_string (x # y # ys) =
    (case x of None \<Rightarrow> [] | Some n \<Rightarrow> number_to_string n) @ CHR '','' # array_to_string (y # ys)"

fun string_lt :: "string \<Rightarrow> string \<Rightarrow> bool" where
  "string_lt [] [] = False"
| "string_lt [] (y # ys) = True"
| "string_lt (x # xs) [] = False"
| "string_lt (x # xs) (y # ys) =
    (if (of_char x :: nat) < of_char y then True
     else if (of_char y :: nat) < of_char x then False
     else string_lt xs ys)"

definition array_lt :: "nat option list \<Rightarrow> nat option list \<Rightarrow> bool" where
  "array_lt xs ys = string_lt (array_to_string xs) (array_to_string ys)"

subsection \<open>The body of \<^verbatim>\<open>methods.forEach\<close>\<close>

type_synonym ranks = "sym \<rightharpoonup> rank"

definition visit :: "nat \<Rightarrow> nat \<Rightarrow> nat \<Rightarrow> sym \<Rightarrow> ranks \<times> sym option \<Rightarrow> ranks \<times> sym option" where
  "visit len i position methodname st =
    (case st of (ranks, mostspecificmethod) \<Rightarrow>
      let rank0 = (case ranks methodname of
                     None \<Rightarrow> \<lparr>filled = 0, vector = []\<rparr>
                   | Some r \<Rightarrow> r);
          rank = \<lparr>filled = filled rank0 + 1, vector = array_set (vector rank0) i position\<rparr>;
          ranks' = ranks(methodname \<mapsto> rank)
      in if filled rank = len \<and>
            (case mostspecificmethod of
               None \<Rightarrow> True
             | Some best \<Rightarrow>
                 (case ranks' best of
                    None \<Rightarrow> False
                  | Some b \<Rightarrow> array_lt (vector rank) (vector b)))
         then (ranks', Some methodname)
         else (ranks', mostspecificmethod))"

subsection \<open>The delegation step\<close>

text \<open>
  What the end of the loop body pushes on the stack for the popped entry: nothing, or one
  entry \<^verbatim>\<open>{arg, isValue}\<close>.
\<close>

definition delegate :: "heap \<Rightarrow> bool \<Rightarrow> val \<Rightarrow> error + (bool \<times> val) list" where
  "delegate h isValue arg =
    (if isValue then
       (case get_prop own_constructor h arg of
          Inl e \<Rightarrow> Inl e
        | Inr c \<Rightarrow> Inr [(False, c)])
     else
       (case get_prop own_prototype h arg of
          Inl e \<Rightarrow> Inl e
        | Inr pr \<Rightarrow>
            (case get_prop own_constructor h pr of
               Inl e \<Rightarrow> Inl e
             | Inr c \<Rightarrow>
                 if arg = c then Inr [(False, Ref ANY)]
                 else if arg \<noteq> Ref ANY then Inr [(True, pr)]
                 else Inr [])))"

subsection \<open>The loops\<close>

record lstate =
  ranks :: ranks
  mostspecificmethod :: "sym option"
  stack :: "(bool \<times> val) list"

text \<open>The methods of the role \<^verbatim>\<open>rolename\<close> in the table of \<open>arg\<close>, if any.\<close>

definition role_methods :: "'b proc \<Rightarrow> heap \<Rightarrow> nat \<Rightarrow> val \<Rightarrow> error + sym list" where
  "role_methods p h i arg =
    (case get_table p h arg False of
       Inl e \<Rightarrow> Inl e
     | Inr (r, p', h') \<Rightarrow>
         (case r of
            None \<Rightarrow> Inr []
          | Some tr \<Rightarrow>
              (case table_of p h tr (selector p, i) of
                 None \<Rightarrow> Inr []
               | Some methods \<Rightarrow> Inr methods)))"

text \<open>
  \<^verbatim>\<open>while (stack.length > 0 && n < 10)\<close>: the stack is a list with its top at the head.
\<close>

function while_loop ::
  "'b proc \<Rightarrow> heap \<Rightarrow> nat \<Rightarrow> nat \<Rightarrow> nat \<Rightarrow> nat \<Rightarrow> lstate \<Rightarrow> error + lstate" where
  "while_loop p h len i position n s =
    (case stack s of
       [] \<Rightarrow> Inr s
     | (isValue, arg) # rest \<Rightarrow>
         if n < 10 then
           (case role_methods p h i arg of
              Inl e \<Rightarrow> Inl e
            | Inr methods \<Rightarrow>
                (case fold (visit len i position) methods (ranks s, mostspecificmethod s) of
                   (ranks', best') \<Rightarrow>
                     (case delegate h isValue arg of
                        Inl e \<Rightarrow> Inl e
                      | Inr pushed \<Rightarrow>
                          while_loop p h len i (position + 1) (n + 1)
                            \<lparr>ranks = ranks', mostspecificmethod = best', stack = pushed @ rest\<rparr>)))
         else Inr s)"
  by pat_completeness auto
termination by (relation "measure (\<lambda>(p, h, len, i, position, n, s). 10 - n)") auto

declare while_loop.simps [simp del]

text \<open>\<^verbatim>\<open>for (var i=0, len = args.length; i < len; i++)\<close>, from index \<open>i\<close> on.\<close>

function for_loop :: "'b proc \<Rightarrow> heap \<Rightarrow> val list \<Rightarrow> nat \<Rightarrow> lstate \<Rightarrow> error + lstate" where
  "for_loop p h args i s =
    (if i < length args then
       (case while_loop p h (length args) i 0 0 (s\<lparr>stack := (True, args ! i) # stack s\<rparr>) of
          Inl e \<Rightarrow> Inl e
        | Inr s' \<Rightarrow> for_loop p h args (i + 1) s')
     else Inr s)"
  by pat_completeness auto
termination by (relation "measure (\<lambda>(p, h, args, i, s). length args - i)") auto

declare for_loop.simps [simp del]

text \<open>\<^verbatim>\<open>var ranks = {}; var stack = []; var mostspecificmethod;\<close>\<close>

definition init_state :: lstate where
  "init_state = \<lparr>ranks = Map.empty, mostspecificmethod = None, stack = []\<rparr>"

definition lookup :: "'b proc \<Rightarrow> heap \<Rightarrow> val list \<Rightarrow> error + 'b option" where
  "lookup p h args =
    (case for_loop p h args 0 init_state of
       Inl e \<Rightarrow> Inl e
     | Inr s \<Rightarrow>
         (case mostspecificmethod s of
            None \<Rightarrow> Inr None
          | Some m \<Rightarrow> Inr (METHODS p m)))"

section \<open>dispatch\<close>

text \<open>
  A method body is a function from the argument list to a result; \<^verbatim>\<open>dispatch\<close> applies the
  body that \<^verbatim>\<open>lookup\<close> returns, or throws \<^verbatim>\<open>"No applicable method found"\<close>.
\<close>

definition dispatch :: "(val list \<Rightarrow> 'r) proc \<Rightarrow> heap \<Rightarrow> val list \<Rightarrow> error + 'r" where
  "dispatch p h args =
    (case lookup p h args of
       Inl e \<Rightarrow> Inl e
     | Inr None \<Rightarrow> Inl NoApplicableMethod
     | Inr (Some body) \<Rightarrow> Inr (body args))"

section \<open>The objects and calls of the test suite\<close>

text \<open>
  The suite "Ranking" sets up \<^verbatim>\<open>Super = function() {}\<close>, \<^verbatim>\<open>Sub = function() {}\<close> and
  \<^verbatim>\<open>Sub.prototype = new Super()\<close>, and calls procedures with \<^verbatim>\<open>new Sub()\<close>,
  \<^verbatim>\<open>new Super()\<close>, a function \<^verbatim>\<open>fn\<close> and the literal \<^verbatim>\<open>{}\<close>.
\<close>

definition SUPER :: nat where "SUPER = 14"
definition SUPER_PROTO :: nat where "SUPER_PROTO = 15"
definition SUB :: nat where "SUB = 16"
definition SUB_PROTO :: nat where "SUB_PROTO = 17"
definition NEW_SUB1 :: nat where "NEW_SUB1 = 18"
definition NEW_SUB2 :: nat where "NEW_SUB2 = 19"
definition FN :: nat where "FN = 20"
definition FN_PROTO :: nat where "FN_PROTO = 21"
definition EMPTY_OBJ :: nat where "EMPTY_OBJ = 22"
definition NEW_SUPER :: nat where "NEW_SUPER = 23"

definition test_heap :: heap where
  "test_heap = builtins @
     [cons_obj SUPER_PROTO, proto_obj (Ref OBJPROTO) SUPER,
      cons_obj SUB_PROTO, plain_obj (Ref SUPER_PROTO),
      plain_obj (Ref SUB_PROTO), plain_obj (Ref SUB_PROTO),
      cons_obj FN_PROTO, proto_obj (Ref OBJPROTO) FN,
      plain_obj (Ref OBJPROTO), plain_obj (Ref SUPER_PROTO)]"

definition test_world :: world where
  "test_world = \<lparr>heap = test_heap, gensym_counter = 0\<rparr>"

text \<open>A test: create a procedure, add the methods in order, call it.\<close>

fun add_methods ::
  "'b proc \<times> world \<Rightarrow> (val list \<times> 'b) list \<Rightarrow> error + ('b proc \<times> world)" where
  "add_methods pw [] = Inr pw"
| "add_methods pw ((specs, body) # ms) =
    (case method_reg (fst pw) (snd pw) specs body of
       Inl e \<Rightarrow> Inl e
     | Inr pw' \<Rightarrow> add_methods pw' ms)"

definition run_on ::
  "world \<Rightarrow> string \<Rightarrow> (val list \<times> (val list \<Rightarrow> string)) list \<Rightarrow> val list
     \<Rightarrow> error + string" where
  "run_on w name ms args =
    (case add_methods (procedure name w) ms of
       Inl e \<Rightarrow> Inl e
     | Inr (p, w') \<Rightarrow> dispatch p (heap w') args)"

definition run_test ::
  "string \<Rightarrow> (val list \<times> (val list \<Rightarrow> string)) list \<Rightarrow> val list \<Rightarrow> error + string" where
  "run_test name ms args = run_on test_world name ms args"







section \<open>The walk of one argument, apart from the ranks\<close>

text \<open>
  The heap and the tables do not change during \<^verbatim>\<open>lookup\<close>, so which entries the \<^verbatim>\<open>while\<close>
  loop pops does not depend on the ranks.  \<open>walk\<close> is the loop with the ranking left out:
  it returns the popped entries in order and the stack that is left.
\<close>

function walk ::
  "'b proc \<Rightarrow> heap \<Rightarrow> nat \<Rightarrow> nat \<Rightarrow> (bool \<times> val) list
     \<Rightarrow> error + ((bool \<times> val) list \<times> (bool \<times> val) list)" where
  "walk p h i n stk =
    (case stk of
       [] \<Rightarrow> Inr ([], [])
     | (isValue, arg) # rest \<Rightarrow>
         if n < 10 then
           (case role_methods p h i arg of
              Inl e \<Rightarrow> Inl e
            | Inr methods \<Rightarrow>
                (case delegate h isValue arg of
                   Inl e \<Rightarrow> Inl e
                 | Inr pushed \<Rightarrow>
                     (case walk p h i (n + 1) (pushed @ rest) of
                        Inl e \<Rightarrow> Inl e
                      | Inr (visited, left) \<Rightarrow> Inr ((isValue, arg) # visited, left))))
         else Inr ([], stk))"
  by pat_completeness auto
termination by (relation "measure (\<lambda>(p, h, i, n, stk). 10 - n)") auto

declare walk.simps [simp del]

text \<open>The methods found at an entry, and the hits of a walk: position and method.\<close>

definition methods_at :: "'b proc \<Rightarrow> heap \<Rightarrow> nat \<Rightarrow> val \<Rightarrow> sym list" where
  "methods_at p h i arg = (case role_methods p h i arg of Inl e \<Rightarrow> [] | Inr ms \<Rightarrow> ms)"

fun hits :: "'b proc \<Rightarrow> heap \<Rightarrow> nat \<Rightarrow> nat \<Rightarrow> (bool \<times> val) list \<Rightarrow> (nat \<times> sym) list" where
  "hits p h i position [] = []"
| "hits p h i position (e # es) =
    map (Pair position) (methods_at p h i (snd e)) @ hits p h i (position + 1) es"

definition visit_hit ::
  "nat \<Rightarrow> nat \<Rightarrow> nat \<times> sym \<Rightarrow> ranks \<times> sym option \<Rightarrow> ranks \<times> sym option" where
  "visit_hit len i x = visit len i (fst x) (snd x)"

text \<open>
  The \<^verbatim>\<open>for\<close> loop with the ranking left out: the hits of all arguments in order, each with
  its argument index, and the stack that is left.
\<close>

function for_walk ::
  "'b proc \<Rightarrow> heap \<Rightarrow> val list \<Rightarrow> nat \<Rightarrow> (bool \<times> val) list
     \<Rightarrow> error + ((nat \<times> nat \<times> sym) list \<times> (bool \<times> val) list)" where
  "for_walk p h args i stk =
    (if i < length args then
       (case walk p h i 0 ((True, args ! i) # stk) of
          Inl e \<Rightarrow> Inl e
        | Inr (visited, left) \<Rightarrow>
            (case for_walk p h args (i + 1) left of
               Inl e \<Rightarrow> Inl e
             | Inr (events, left') \<Rightarrow> Inr (map (Pair i) (hits p h i 0 visited) @ events, left')))
     else Inr ([], stk))"
  by pat_completeness auto
termination by (relation "measure (\<lambda>(p, h, args, i, stk). length args - i)") auto

declare for_walk.simps [simp del]

definition visit_event ::
  "nat \<Rightarrow> nat \<times> nat \<times> sym \<Rightarrow> ranks \<times> sym option \<Rightarrow> ranks \<times> sym option" where
  "visit_event len x = visit len (fst x) (fst (snd x)) (snd (snd x))"

section \<open>Predicates used in the statements\<close>

text \<open>
  A state of the ranking agrees with its counters: the most specific method, when there
  is one, has a counter that reached \<open>len\<close>, and there is one as soon as some counter
  reached \<open>len\<close>.
\<close>

definition reached :: "nat \<Rightarrow> ranks \<times> sym option \<Rightarrow> bool" where
  "reached len st \<longleftrightarrow>
     (\<forall>b. snd st = Some b \<longrightarrow> (\<exists>rk. fst st b = Some rk \<and> len \<le> filled rk)) \<and>
     ((\<exists>m rk. fst st m = Some rk \<and> len \<le> filled rk) \<longrightarrow> snd st \<noteq> None)"

text \<open>The slots of the objects that registration never writes.\<close>

definition slots :: "obj \<Rightarrow> val \<times> val option \<times> val option" where
  "slots ob = (proto ob, own_constructor ob, own_prototype ob)"

definition shape :: "heap \<Rightarrow> (val \<times> val option \<times> val option) list" where
  "shape h = map slots h"

text \<open>A heap in which the built-in objects and \<^verbatim>\<open>ANY\<close> are in place.\<close>

definition std :: "heap \<Rightarrow> bool" where
  "std h \<longleftrightarrow> take (length builtins) (shape h) = shape builtins"

text \<open>
  A value whose constructor is a top-level constructor: the value has a \<^verbatim>\<open>constructor\<close>
  \<open>c\<close>, an object with \<^verbatim>\<open>c === c.prototype.constructor\<close>, and \<^verbatim>\<open>hasOwnProperty\<close> can be
  called on both.
\<close>

definition top_level :: "heap \<Rightarrow> val \<Rightarrow> bool" where
  "top_level h v \<longleftrightarrow>
     (case v of
        Undefined \<Rightarrow> False
      | Null \<Rightarrow> False
      | Ref a \<Rightarrow> has_hasOwnProperty h a
      | _ \<Rightarrow> True) \<and>
     (case get_prop own_constructor h v of
        Inr (Ref c) \<Rightarrow>
          has_hasOwnProperty h c \<and>
          (case get_prop own_prototype h (Ref c) of
             Inr pr \<Rightarrow> get_prop own_constructor h pr = Inr (Ref c)
           | Inl e \<Rightarrow> False)
      | _ \<Rightarrow> False)"

text \<open>The constructor of such a value.\<close>

definition constructor_of :: "heap \<Rightarrow> val \<Rightarrow> val" where
  "constructor_of h v = (case get_prop own_constructor h v of Inr c \<Rightarrow> c | Inl e \<Rightarrow> Undefined)"

text \<open>The object \<open>a\<close> owns a table that lists the method \<open>m\<close> under the role \<open>r\<close>.\<close>

definition has_entry :: "heap \<Rightarrow> nat \<Rightarrow> role \<Rightarrow> sym \<Rightarrow> bool" where
  "has_entry h a r m \<longleftrightarrow>
     a < length h \<and> (\<exists>t ms. own_roles (h ! a) = Some t \<and> t r = Some ms \<and> m \<in> set ms)"

text \<open>The counter of a method in the ranks, 0 when it has no rank yet.\<close>

definition fill :: "ranks \<Rightarrow> sym \<Rightarrow> nat" where
  "fill rs m = (case rs m of None \<Rightarrow> 0 | Some rk \<Rightarrow> filled rk)"

text \<open>The method \<open>m\<close> has the distance \<open>d\<close> recorded at position \<open>i\<close> of its vector.\<close>

definition ranked_at :: "ranks \<Rightarrow> sym \<Rightarrow> nat \<Rightarrow> nat \<Rightarrow> bool" where
  "ranked_at rs m i d \<longleftrightarrow>
     (\<exists>rk. rs m = Some rk \<and> i < length (vector rk) \<and> vector rk ! i = Some d)"

text \<open>No object of the heap has a role table yet.\<close>

definition no_roles :: "heap \<Rightarrow> bool" where
  "no_roles h = list_all (\<lambda>ob. own_roles ob = None) h"

text \<open>
  Scope of \<^verbatim>\<open>get_table\<close>.  \<^verbatim>\<open>STRINGS\<close> is a plain object, and \<^verbatim>\<open>value in STRINGS\<close> is also true
  for the names that \<^verbatim>\<open>Object.prototype\<close> provides: its twelve own properties, and
  \<^verbatim>\<open>__roles__\<close> once a method has been registered for \<^verbatim>\<open>Object.prototype\<close> itself.  For such
  a string the source takes the inherited object as the table, and for \<^verbatim>\<open>'__proto__'\<close> it
  writes the roles onto \<^verbatim>\<open>Object.prototype\<close>, from where every table inherits them.  The
  model keeps \<^verbatim>\<open>STRINGS\<close> as a map of its own keys, so it follows the source on the strings
  that are not among these names, which \<open>plain\<close> collects.  As long as only such strings are
  used, \<^verbatim>\<open>Object.prototype\<close> gets no property named like a role, and the reads
  \<^verbatim>\<open>table[rolename]\<close> see own entries only.  (No such name is the decimal form of a number,
  so \<^verbatim>\<open>NUMBERS\<close> is not concerned.)  The calls that are evaluated below use plain strings
  only, and the statements about arbitrary registered methods carry \<open>plain\<close> as a
  hypothesis on the specializers and on the arguments.
\<close>

definition inherited_names :: "string list" where
  "inherited_names =
    [''constructor'', ''toString'', ''toLocaleString'', ''valueOf'', ''hasOwnProperty'',
     ''isPrototypeOf'', ''propertyIsEnumerable'', ''__defineGetter__'', ''__defineSetter__'',
     ''__lookupGetter__'', ''__lookupSetter__'', ''__proto__'', ''__roles__'']"

fun plain :: "val \<Rightarrow> bool" where
  "plain (Str s) = (\<not> List.member inherited_names s)"
| "plain v = True"

definition plain_methods :: "(val list \<times> 'b) list \<Rightarrow> bool" where
  "plain_methods ms = list_all (\<lambda>m. list_all plain (fst m)) ms"

text \<open>The table in which \<^verbatim>\<open>method\<close> records a specializer.\<close>

fun owner_of :: "val \<Rightarrow> tref option" where
  "owner_of (Str s) = Some (TStr s)"
| "owner_of (Num n) = Some (TNum n)"
| "owner_of (Bool b) = Some (if b then TTrue else TFalse)"
| "owner_of Null = Some TNull"
| "owner_of (Ref a) = Some (TObj a)"
| "owner_of Undefined = None"

definition valid_tref :: "heap \<Rightarrow> tref \<Rightarrow> bool" where
  "valid_tref h tr = (case tr of TObj a \<Rightarrow> a < length h | _ \<Rightarrow> True)"

text \<open>
  What a run of registrations pushes: the triples of method name, position and
  specializer.  \<open>pushes\<close> are those of one call of \<^verbatim>\<open>method\<close> from position \<open>i\<close> on, \<open>regs\<close>
  those of a list of calls, the first of which draws the counter \<open>c\<close> from \<^verbatim>\<open>gensym\<close>.
\<close>

definition pushes :: "sym \<Rightarrow> nat \<Rightarrow> val list \<Rightarrow> (sym \<times> nat \<times> val) set" where
  "pushes m i specs = {(m, i + j, specs ! j) | j. j < length specs}"

fun regs :: "string \<Rightarrow> nat \<Rightarrow> (val list \<times> 'b) list \<Rightarrow> (sym \<times> nat \<times> val) set" where
  "regs name c [] = {}"
| "regs name c (sb # ms) = pushes (name, c) 0 (fst sb) \<union> regs name (Suc c) ms"

text \<open>
  The heap of a world may hold the tables of other procedures.  Their roles carry
  selectors that \<^verbatim>\<open>gensym\<close> has drawn already, so the counter of such a selector is below
  the counter of the world.
\<close>

definition roles_drawn :: "world \<Rightarrow> bool" where
  "roles_drawn w \<longleftrightarrow>
     (\<forall>a < length (heap w). \<forall>t sel j.
        own_roles (heap w ! a) = Some t \<longrightarrow> t (sel, j) \<noteq> None \<longrightarrow> snd sel < gensym_counter w)"

text \<open>
  Every method that a table lists under a role of the procedure was pushed there: the
  tables hold nothing but what \<open>R\<close> says.
\<close>

definition origin :: "(sym \<times> nat \<times> val) set \<Rightarrow> 'b proc \<Rightarrow> heap \<Rightarrow> bool" where
  "origin R p h \<longleftrightarrow>
     (\<forall>tr j ms m. valid_tref h tr \<and> table_of p h tr (selector p, j) = Some ms \<and> m \<in> set ms
        \<longrightarrow> (\<exists>v. (m, j, v) \<in> R \<and> owner_of v = Some tr))"

text \<open>
  The name of the \<open>k\<close>-th method registered on a procedure that was created with the
  given name in the world \<open>w0\<close>: the procedure draws the counter of \<open>w0\<close> for its selector.
\<close>

definition method_name :: "string \<Rightarrow> world \<Rightarrow> nat \<Rightarrow> sym" where
  "method_name name w0 k = (name, gensym_counter w0 + 1 + k)"

text \<open>The entries of the walk of a value with a top-level constructor.\<close>

definition top_entries :: "heap \<Rightarrow> val \<Rightarrow> (bool \<times> val) list" where
  "top_entries h v = [(True, v), (False, constructor_of h v), (False, Ref ANY)]"

text \<open>
  The events of a call in which every argument has a top-level constructor: argument
  index, distance and method, in the order in which \<^verbatim>\<open>lookup\<close> meets them.
\<close>

definition top_events :: "'b proc \<Rightarrow> heap \<Rightarrow> val list \<Rightarrow> (nat \<times> nat \<times> sym) list" where
  "top_events p h args =
     concat (map (\<lambda>j. map (Pair j) (hits p h j 0 (top_entries h (args ! j)))) [0..<length args])"

section \<open>Lemmas about the loops, the heap and registration\<close>

lemmas builtin_defs = OBJPROTO_def OBJECT_def FUNCTION_def FUNPROTO_def STRING_def
  STRPROTO_def NUMBER_def NUMPROTO_def BOOLEAN_def BOOLPROTO_def ARRAY_def ARRPROTO_def
  ANY_def ANYPROTO_def


lemma get_prop_error: "get_prop f h v = Inl e \<Longrightarrow> e = TypeError"
  by (auto simp: get_prop_def split: val.splits option.splits)

lemma get_table_error: "get_table p h v c = Inl e \<Longrightarrow> e = TypeError"
  by (auto simp: get_table_def Let_def split: val.splits option.splits if_splits)

lemma role_methods_error: "role_methods p h i v = Inl e \<Longrightarrow> e = TypeError"
  by (auto simp: role_methods_def split: sum.splits option.splits prod.splits dest: get_table_error)

lemma delegate_error: "delegate h b v = Inl e \<Longrightarrow> e = TypeError"
  by (auto simp: delegate_def split: sum.splits if_splits dest: get_prop_error)

lemma while_loop_error: "while_loop p h len i pos n s = Inl e \<Longrightarrow> e = TypeError"
proof (induction p h len i pos n s rule: while_loop.induct)
  case (1 p h len i position n s)
  show ?case
  proof (cases "stack s")
    case Nil
    with "1.prems" show ?thesis by (simp add: while_loop.simps)
  next
    case (Cons top rest)
    obtain isValue arg where top: "top = (isValue, arg)" by (cases top)
    show ?thesis
    proof (cases "n < 10")
      case False
      with "1.prems" Cons top show ?thesis by (simp add: while_loop.simps)
    next
      case True
      show ?thesis
      proof (cases "role_methods p h i arg")
        case (Inl e')
        with "1.prems" Cons top True show ?thesis
          by (simp add: while_loop.simps role_methods_error)
      next
        case (Inr methods)
        obtain ranks' best' where f: "fold (visit len i position) methods (ranks s, mostspecificmethod s) = (ranks', best')"
          by (cases "fold (visit len i position) methods (ranks s, mostspecificmethod s)")
        show ?thesis
        proof (cases "delegate h isValue arg")
          case (Inl e')
          with "1.prems" Cons top True Inr f show ?thesis
            by (simp add: while_loop.simps delegate_error)
        next
          case (Inr pushed)
          from "1.prems" Cons top True \<open>role_methods p h i arg = Inr methods\<close> f Inr
          have "while_loop p h len i (position + 1) (n + 1)
                  \<lparr>ranks = ranks', mostspecificmethod = best', stack = pushed @ rest\<rparr> = Inl e"
            by (simp add: while_loop.simps)
          with "1.IH"[OF Cons top[symmetric] True \<open>role_methods p h i arg = Inr methods\<close> f[symmetric] Inr]
          show ?thesis by simp
        qed
      qed
    qed
  qed
qed


lemma fold_visit_hits:
  "fold (visit len i pos) ms st = fold (visit_hit len i) (map (Pair pos) ms) st"
  by (induction ms arbitrary: st) (simp_all add: visit_hit_def)

lemma walk_Nil: "walk p h i n [] = Inr ([], [])"
  by (subst walk.simps) simp

lemma walk_Cons:
  "walk p h i n ((isValue, arg) # rest) =
    (if n < 10 then
       (case role_methods p h i arg of
          Inl e \<Rightarrow> Inl e
        | Inr methods \<Rightarrow>
            (case delegate h isValue arg of
               Inl e \<Rightarrow> Inl e
             | Inr pushed \<Rightarrow>
                 (case walk p h i (n + 1) (pushed @ rest) of
                    Inl e \<Rightarrow> Inl e
                  | Inr (visited, left) \<Rightarrow> Inr ((isValue, arg) # visited, left))))
     else Inr ([], (isValue, arg) # rest))"
  by (subst walk.simps) simp

lemma while_loop_walk:
  "while_loop p h len i pos n s =
     (case walk p h i n (stack s) of
        Inl e \<Rightarrow> Inl e
      | Inr (visited, left) \<Rightarrow>
          Inr \<lparr>ranks = fst (fold (visit_hit len i) (hits p h i pos visited) (ranks s, mostspecificmethod s)),
               mostspecificmethod = snd (fold (visit_hit len i) (hits p h i pos visited) (ranks s, mostspecificmethod s)),
               stack = left\<rparr>)"
proof (induction p h len i pos n s rule: while_loop.induct)
  case (1 p h len i position n s)
  show ?case
  proof (cases "stack s")
    case Nil
    then show ?thesis by (simp add: while_loop.simps walk_Nil)
  next
    case (Cons top rest)
    obtain isValue arg where top: "top = (isValue, arg)" by (cases top)
    show ?thesis
    proof (cases "n < 10")
      case False
      with Cons top show ?thesis by (simp add: while_loop.simps walk_Cons)
    next
      case True
      show ?thesis
      proof (cases "role_methods p h i arg")
        case (Inl e')
        with Cons top True show ?thesis
          by (simp add: while_loop.simps walk_Cons)
      next
        case (Inr methods)
        note rm = this
        obtain ranks' best' where f: "fold (visit len i position) methods (ranks s, mostspecificmethod s) = (ranks', best')"
          by (cases "fold (visit len i position) methods (ranks s, mostspecificmethod s)")
        show ?thesis
        proof (cases "delegate h isValue arg")
          case (Inl e')
          with Cons top True rm f show ?thesis
            by (simp add: while_loop.simps walk_Cons)
        next
          case (Inr pushed)
          have step: "while_loop p h len i position n s = while_loop p h len i (position + 1) (n + 1)
                  \<lparr>ranks = ranks', mostspecificmethod = best', stack = pushed @ rest\<rparr>"
            using Cons top True rm f Inr by (simp add: while_loop.simps[of p h len i position n s])
          have wstep: "walk p h i n (stack s) = (case walk p h i (n + 1) (pushed @ rest) of
                        Inl e \<Rightarrow> Inl e
                      | Inr (visited, left) \<Rightarrow> Inr ((isValue, arg) # visited, left))"
            using Cons top True rm Inr by (simp add: walk_Cons)
          have ma: "methods_at p h i arg = methods" using rm by (simp add: methods_at_def)
          show ?thesis
            unfolding step wstep
              "1.IH"[OF Cons top[symmetric] True rm f[symmetric] Inr]
            using f ma
            by (auto split: sum.splits prod.splits simp: fold_visit_hits)
        qed
      qed
    qed
  qed
qed


lemma fold_hits_events:
  "fold (visit_hit len i) hs st = fold (visit_event len) (map (Pair i) hs) st"
  by (induction hs arbitrary: st) (simp_all add: visit_hit_def visit_event_def)

lemma for_loop_walk:
  "for_loop p h args i s =
     (case for_walk p h args i (stack s) of
        Inl e \<Rightarrow> Inl e
      | Inr (events, left) \<Rightarrow>
          Inr \<lparr>ranks = fst (fold (visit_event (length args)) events (ranks s, mostspecificmethod s)),
               mostspecificmethod = snd (fold (visit_event (length args)) events (ranks s, mostspecificmethod s)),
               stack = left\<rparr>)"
proof (induction p h args i s rule: for_loop.induct)
  case (1 p h args i s)
  show ?case
  proof (cases "i < length args")
    case False
    then show ?thesis by (simp add: for_loop.simps for_walk.simps)
  next
    case True
    let ?s0 = "s\<lparr>stack := (True, args ! i) # stack s\<rparr>"
    show ?thesis
    proof (cases "walk p h i 0 ((True, args ! i) # stack s)")
      case (Inl e)
      with True show ?thesis
        by (simp add: for_loop.simps[of p h args i s] for_walk.simps[of p h args i] while_loop_walk)
    next
      case (Inr r)
      obtain visited left where r: "r = (visited, left)" by (cases r)
      define s' where "s' = \<lparr>ranks = fst (fold (visit_hit (length args) i) (hits p h i 0 visited) (ranks s, mostspecificmethod s)),
               mostspecificmethod = snd (fold (visit_hit (length args) i) (hits p h i 0 visited) (ranks s, mostspecificmethod s)),
               stack = left\<rparr>"
      have w: "while_loop p h (length args) i 0 0 ?s0 = Inr s'"
        using Inr r by (simp add: while_loop_walk s'_def)
      have "for_loop p h args i s = for_loop p h args (i + 1) s'"
        using True w by (simp add: for_loop.simps[of p h args i s])
      also note "1.IH"[OF True w]
      finally show ?thesis
        using True Inr r
        by (auto simp: for_walk.simps[of p h args i] s'_def fold_hits_events split: sum.splits prod.splits)
    qed
  qed
qed


lemma walk_error: "walk p h i n stk = Inl e \<Longrightarrow> e = TypeError"
  using while_loop_error[of p h 0 i 0 n "\<lparr>ranks = Map.empty, mostspecificmethod = None, stack = stk\<rparr>" e]
  by (simp add: while_loop_walk split: sum.splits)


lemma walk_null: "walk p h i 0 ((True, Null) # stk) = Inl TypeError"
  by (simp add: walk_Cons role_methods_def get_table_def delegate_def get_prop_def
           split: option.splits)

lemma walk_undefined: "walk p h i 0 ((True, Undefined) # stk) = Inl TypeError"
  by (simp add: walk_Cons role_methods_def get_table_def)

lemma for_walk_null_undefined:
  assumes "j < length args" and "args ! j = Null \<or> args ! j = Undefined" and "i \<le> j"
  shows "for_walk p h args i stk = Inl TypeError"
  using assms
proof (induction "j - i" arbitrary: i stk)
  case 0
  then have "i = j" by simp
  with 0 show ?case
    by (auto simp: for_walk.simps[of p h args j stk] walk_null walk_undefined)
next
  case (Suc k)
  then have lt: "i < length args" and ij: "i < j" by simp_all
  show ?case
  proof (cases "walk p h i 0 ((True, args ! i) # stk)")
    case (Inl e)
    with lt show ?thesis by (simp add: for_walk.simps[of p h args i stk] walk_error)
  next
    case (Inr r)
    obtain visited left where r: "r = (visited, left)" by (cases r)
    have "for_walk p h args (i + 1) left = Inl TypeError"
      using Suc.hyps(1)[of "i + 1" left] Suc.hyps(2) Suc.prems ij by simp
    with lt Inr r show ?thesis by (simp add: for_walk.simps[of p h args i stk])
  qed
qed


lemma reached_visit:
  assumes "reached len st" and "0 < len"
  shows "reached len (visit len i pos m st)"
proof -
  obtain rs best where st: "st = (rs, best)" by (cases st)
  show ?thesis
    using assms unfolding st reached_def visit_def Let_def
    by (auto split: option.splits if_splits simp: le_Suc_eq)
qed

lemma reached_fold:
  assumes "reached len st" and "0 < len"
  shows "reached len (fold (visit_event len) evs st)"
  using assms by (induction evs arbitrary: st) (simp_all add: visit_event_def reached_visit)


lemma shape_length: "shape h' = shape h \<Longrightarrow> length h' = length h"
  by (metis length_map shape_def)

lemma shape_slots:
  assumes "shape h' = shape h" and "a < length h"
  shows "proto (h' ! a) = proto (h ! a)"
    and "own_constructor (h' ! a) = own_constructor (h ! a)"
    and "own_prototype (h' ! a) = own_prototype (h ! a)"
proof -
  have "slots (h' ! a) = slots (h ! a)"
    using assms shape_length[OF assms(1)] by (metis nth_map shape_def)
  then show "proto (h' ! a) = proto (h ! a)"
    and "own_constructor (h' ! a) = own_constructor (h ! a)"
    and "own_prototype (h' ! a) = own_prototype (h ! a)"
    by (simp_all add: slots_def)
qed

lemma shape_links:
  assumes "shape h' = shape h"
  shows "links k h' v = links k h v"
proof (induction k arbitrary: v)
  case 0
  show ?case by simp
next
  case (Suc k)
  show ?case
    using shape_length[OF assms] shape_slots(1)[OF assms] Suc.IH
    by (auto split: val.splits)
qed

lemma shape_proto_chain: "shape h' = shape h \<Longrightarrow> proto_chain h' v = proto_chain h v"
  using shape_links[of h' h "length h" "to_object v"] shape_length[of h' h]
  by (simp add: proto_chain_def)

lemma links_bound: "a \<in> set (links k h v) \<Longrightarrow> a < length h"
  by (induction k arbitrary: v) (auto split: val.splits if_splits)

lemma proto_chain_bound: "a \<in> set (proto_chain h v) \<Longrightarrow> a < length h"
  by (auto simp: proto_chain_def dest: links_bound)

lemma shape_first_own_constructor:
  assumes "shape h' = shape h" and "\<forall>a \<in> set as. a < length h"
  shows "first_own own_constructor h' as = first_own own_constructor h as"
  using assms(2) by (induction as) (auto simp: shape_slots(2)[OF assms(1)] split: option.splits)

lemma shape_first_own_prototype:
  assumes "shape h' = shape h" and "\<forall>a \<in> set as. a < length h"
  shows "first_own own_prototype h' as = first_own own_prototype h as"
  using assms(2) by (induction as) (auto simp: shape_slots(3)[OF assms(1)] split: option.splits)

lemma shape_get_constructor:
  "shape h' = shape h \<Longrightarrow> get_prop own_constructor h' v = get_prop own_constructor h v"
  using shape_first_own_constructor[of h' h "proto_chain h v"] shape_proto_chain[of h' h v]
  by (cases v) (simp_all add: get_prop_def proto_chain_bound)

lemma shape_get_prototype:
  "shape h' = shape h \<Longrightarrow> get_prop own_prototype h' v = get_prop own_prototype h v"
  using shape_first_own_prototype[of h' h "proto_chain h v"] shape_proto_chain[of h' h v]
  by (cases v) (simp_all add: get_prop_def proto_chain_bound)

lemma shape_delegate:
  assumes "shape h' = shape h"
  shows "delegate h' b v = delegate h b v"
  unfolding delegate_def shape_get_constructor[OF assms] shape_get_prototype[OF assms] ..

lemma shape_has_hasOwnProperty:
  "shape h' = shape h \<Longrightarrow> has_hasOwnProperty h' a = has_hasOwnProperty h a"
  using shape_proto_chain[of h' h "Ref a"] by (simp add: has_hasOwnProperty_def)

lemma shape_std: "shape h' = shape h \<Longrightarrow> std h' = std h"
  by (simp add: std_def)

lemma shape_top_level:
  assumes "shape h' = shape h"
  shows "top_level h' v = top_level h v"
  unfolding top_level_def shape_get_constructor[OF assms] shape_get_prototype[OF assms]
    shape_has_hasOwnProperty[OF assms] ..

lemma shape_constructor_of:
  assumes "shape h' = shape h"
  shows "constructor_of h' v = constructor_of h v"
  unfolding constructor_of_def shape_get_constructor[OF assms] ..

lemma shape_update_roles:
  "shape (h[a := (h ! a)\<lparr>own_roles := t\<rparr>]) = shape h"
  by (cases "a < length h") (simp_all add: shape_def slots_def map_update list_eq_iff_nth_eq nth_list_update)

lemma get_table_shape: "get_table p h v c = Inr (r, p', h') \<Longrightarrow> shape h' = shape h"
  by (auto simp: get_table_def Let_def shape_update_roles split: val.splits option.splits if_splits)

lemma table_set_shape: "table_set p h r t = (p', h') \<Longrightarrow> shape h' = shape h"
  by (auto simp: table_set_def shape_update_roles split: tref.splits)

lemma method_loop_shape:
  "method_loop m i specs p h = Inr (p', h') \<Longrightarrow> shape h' = shape h"
proof (induction specs arbitrary: i p h)
  case Nil
  then show ?case by simp
next
  case (Cons arg rest)
  from Cons.prems obtain tr p1 h1 p2 h2 where
    g: "get_table p h arg True = Inr (Some tr, p1, h1)" and
    t: "table_set p1 h1 tr (push_role (table_of p1 h1 tr) (selector p1, i) m) = (p2, h2)" and
    r: "method_loop m (Suc i) rest p2 h2 = Inr (p', h')"
    by (auto split: sum.splits option.splits prod.splits)
  from Cons.IH[OF r] table_set_shape[OF t] get_table_shape[OF g] show ?case by simp
qed

lemma method_shape:
  "method_reg p w specs body = Inr (p', w') \<Longrightarrow> shape (heap w') = shape (heap w)"
  by (auto simp: method_reg_def gensym_def Let_def split: sum.splits prod.splits dest: method_loop_shape)


lemma length_builtins: "length builtins = 14"
  by (simp add: builtins_def)

lemma std_length: "std h \<Longrightarrow> 14 \<le> length h"
proof -
  assume "std h"
  then have "length (take 14 (shape h)) = 14"
    by (simp add: std_def length_builtins shape_def)
  then show ?thesis by (simp add: shape_def)
qed

lemma std_builtins: "std builtins"
  by (simp add: std_def shape_def)

lemma std_nth:
  assumes "std h" and "a < 14"
  shows "proto (h ! a) = proto (builtins ! a)"
    and "own_constructor (h ! a) = own_constructor (builtins ! a)"
    and "own_prototype (h ! a) = own_prototype (builtins ! a)"
proof -
  have len: "a < length h" using std_length[OF assms(1)] assms(2) by simp
  have "take 14 (shape h) ! a = shape builtins ! a"
    using assms(1) by (simp add: std_def length_builtins)
  then have "slots (h ! a) = slots (builtins ! a)"
    using assms(2) len by (simp add: shape_def length_builtins)
  then show "proto (h ! a) = proto (builtins ! a)"
    and "own_constructor (h ! a) = own_constructor (builtins ! a)"
    and "own_prototype (h ! a) = own_prototype (builtins ! a)"
    by (simp_all add: slots_def)
qed

lemmas obj_defs = cons_obj_def proto_obj_def plain_obj_def

lemma std_nonempty: "std h \<Longrightarrow> h \<noteq> []"
  using std_length[of h] by auto

lemma links_Ref:
  "links k h (Ref a) =
     (if 0 < k \<and> a < length h then a # links (k - 1) h (proto (h ! a)) else [])"
  by (cases k) auto

lemma links_prim:
  "links k h Null = []" "links k h Undefined = []" "links k h (Bool b) = []"
  "links k h (Num n) = []" "links k h (Str s) = []"
  by (cases k; simp)+

lemma std_protos:
  assumes "std h"
  shows "proto (h ! OBJPROTO) = Null"
    and "a \<in> {FUNPROTO, STRPROTO, NUMPROTO, BOOLPROTO, ARRPROTO, ANYPROTO} \<Longrightarrow> proto (h ! a) = Ref OBJPROTO"
    and "a \<in> {OBJECT, FUNCTION, STRING, NUMBER, BOOLEAN, ARRAY, ANY} \<Longrightarrow> proto (h ! a) = Ref FUNPROTO"
proof -
  show "proto (h ! OBJPROTO) = Null"
    using std_nth(1)[OF assms, of 0] by (simp add: builtins_def obj_defs builtin_defs)
  show "proto (h ! a) = Ref OBJPROTO"
    if "a \<in> {FUNPROTO, STRPROTO, NUMPROTO, BOOLPROTO, ARRPROTO, ANYPROTO}"
    using that std_nth(1)[OF assms, of a] by (auto simp: builtins_def obj_defs builtin_defs)
  show "proto (h ! a) = Ref FUNPROTO"
    if "a \<in> {OBJECT, FUNCTION, STRING, NUMBER, BOOLEAN, ARRAY, ANY}"
    using that std_nth(1)[OF assms, of a] by (auto simp: builtins_def obj_defs builtin_defs)
qed

lemma std_chain_objproto:
  assumes "std h"
  shows "proto_chain h (Ref OBJPROTO) = [OBJPROTO]"
  using std_length[OF assms] std_protos(1)[OF assms]
  by (auto simp: proto_chain_def links_Ref links_prim OBJPROTO_def)

lemma std_chain_proto:
  assumes "std h" and "a \<in> {FUNPROTO, STRPROTO, NUMPROTO, BOOLPROTO, ARRPROTO, ANYPROTO}"
  shows "proto_chain h (Ref a) = [a, OBJPROTO]"
proof -
  have a: "a < length h" using assms(2) std_length[OF assms(1)] by (auto simp: builtin_defs)
  have o: "OBJPROTO < length h" using std_length[OF assms(1)] by (auto simp: OBJPROTO_def)
  show ?thesis
    using std_nonempty[OF assms(1)] std_length[OF assms(1)] std_protos(1)[OF assms(1)] std_protos(2)[OF assms] a o
    by (auto simp: proto_chain_def links_Ref links_prim)
qed

lemma std_chain_cons:
  assumes "std h" and "a \<in> {OBJECT, FUNCTION, STRING, NUMBER, BOOLEAN, ARRAY, ANY}"
  shows "proto_chain h (Ref a) = [a, FUNPROTO, OBJPROTO]"
proof -
  have a: "a < length h" using assms(2) std_length[OF assms(1)] by (auto simp: builtin_defs)
  have o: "OBJPROTO < length h" "FUNPROTO < length h"
    using std_length[OF assms(1)] by (auto simp: builtin_defs)
  have f: "proto (h ! FUNPROTO) = Ref OBJPROTO"
    by (rule std_protos(2)[OF assms(1)]) simp
  show ?thesis
    using std_nonempty[OF assms(1)] std_length[OF assms(1)] std_protos(1)[OF assms(1)] std_protos(3)[OF assms] f a o
    by (auto simp: proto_chain_def links_Ref links_prim)
qed


lemma proto_chain_prim:
  "proto_chain h (Str s) = proto_chain h (Ref STRPROTO)"
  "proto_chain h (Num n) = proto_chain h (Ref NUMPROTO)"
  "proto_chain h (Bool b) = proto_chain h (Ref BOOLPROTO)"
  by (simp_all add: proto_chain_def)

lemma std_own:
  assumes "std h"
  shows "own_constructor (h ! STRPROTO) = Some (Ref STRING)"
    and "own_constructor (h ! NUMPROTO) = Some (Ref NUMBER)"
    and "own_constructor (h ! BOOLPROTO) = Some (Ref BOOLEAN)"
    and "own_constructor (h ! ANYPROTO) = None"
    and "own_constructor (h ! OBJPROTO) = Some (Ref OBJECT)"
    and "own_prototype (h ! STRING) = Some (Ref STRPROTO)"
    and "own_prototype (h ! NUMBER) = Some (Ref NUMPROTO)"
    and "own_prototype (h ! BOOLEAN) = Some (Ref BOOLPROTO)"
    and "own_prototype (h ! ANY) = Some (Ref ANYPROTO)"
  using std_nth(2)[OF assms, of 5] std_nth(2)[OF assms, of 7] std_nth(2)[OF assms, of 9]
    std_nth(2)[OF assms, of 13] std_nth(2)[OF assms, of 0]
    std_nth(3)[OF assms, of 4] std_nth(3)[OF assms, of 6] std_nth(3)[OF assms, of 8]
    std_nth(3)[OF assms, of 12]
  by (simp_all add: builtins_def obj_defs builtin_defs)

lemma std_get_constructor_prim:
  assumes "std h"
  shows "get_prop own_constructor h (Str s) = Inr (Ref STRING)"
    and "get_prop own_constructor h (Num n) = Inr (Ref NUMBER)"
    and "get_prop own_constructor h (Bool b) = Inr (Ref BOOLEAN)"
    and "get_prop own_constructor h (Ref STRPROTO) = Inr (Ref STRING)"
    and "get_prop own_constructor h (Ref NUMPROTO) = Inr (Ref NUMBER)"
    and "get_prop own_constructor h (Ref BOOLPROTO) = Inr (Ref BOOLEAN)"
    and "get_prop own_constructor h (Ref ANYPROTO) = Inr (Ref OBJECT)"
  using std_own[OF assms]
  by (simp_all add: get_prop_def proto_chain_prim std_chain_proto[OF assms])

lemma std_get_prototype:
  assumes "std h"
  shows "get_prop own_prototype h (Ref STRING) = Inr (Ref STRPROTO)"
    and "get_prop own_prototype h (Ref NUMBER) = Inr (Ref NUMPROTO)"
    and "get_prop own_prototype h (Ref BOOLEAN) = Inr (Ref BOOLPROTO)"
    and "get_prop own_prototype h (Ref ANY) = Inr (Ref ANYPROTO)"
  using std_own[OF assms]
  by (simp_all add: get_prop_def std_chain_cons[OF assms])

lemma std_has_hasOwnProperty:
  assumes "std h" and "a \<in> {OBJECT, FUNCTION, STRING, NUMBER, BOOLEAN, ARRAY, ANY}"
  shows "has_hasOwnProperty h a"
  by (simp add: has_hasOwnProperty_def std_chain_cons[OF assms])

lemma std_top_level_prim:
  assumes "std h"
  shows "top_level h (Str s)" and "top_level h (Num n)" and "top_level h (Bool b)"
  using std_get_constructor_prim[OF assms] std_get_prototype[OF assms]
    std_has_hasOwnProperty[OF assms]
  by (simp_all add: top_level_def)

lemma std_constructor_of_prim:
  assumes "std h"
  shows "constructor_of h (Str s) = Ref STRING"
    and "constructor_of h (Num n) = Ref NUMBER"
    and "constructor_of h (Bool b) = Ref BOOLEAN"
  using std_get_constructor_prim[OF assms] by (simp_all add: constructor_of_def)

lemma std_delegate_any:
  assumes "std h"
  shows "delegate h False (Ref ANY) = Inr []"
  using std_get_constructor_prim(7)[OF assms] std_get_prototype(4)[OF assms]
  by (simp add: delegate_def builtin_defs)

lemma role_methods_ok:
  assumes "v \<noteq> Undefined" and "\<And>a. v = Ref a \<Longrightarrow> has_hasOwnProperty h a"
  shows "role_methods p h i v = Inr (methods_at p h i v)"
  using assms
  by (cases v) (auto simp: methods_at_def role_methods_def get_table_def Let_def
                     split: option.splits)

lemma top_level_steps:
  assumes "top_level h v"
  obtains c where "get_prop own_constructor h v = Inr (Ref c)"
    and "constructor_of h v = Ref c"
    and "has_hasOwnProperty h c"
    and "delegate h True v = Inr [(False, Ref c)]"
    and "delegate h False (Ref c) = Inr [(False, Ref ANY)]"
    and "role_methods p h i v = Inr (methods_at p h i v)"
    and "role_methods p h i (Ref c) = Inr (methods_at p h i (Ref c))"
proof -
  from assms obtain c where c: "get_prop own_constructor h v = Inr (Ref c)"
    by (auto simp: top_level_def split: sum.splits val.splits)
  from assms c have hc: "has_hasOwnProperty h c"
    by (auto simp: top_level_def)
  from assms c obtain pr where pr: "get_prop own_prototype h (Ref c) = Inr pr"
    "get_prop own_constructor h pr = Inr (Ref c)"
    by (auto simp: top_level_def split: sum.splits)
  have v: "v \<noteq> Undefined" "\<And>a. v = Ref a \<Longrightarrow> has_hasOwnProperty h a"
    using assms by (auto simp: top_level_def)
  show ?thesis
  proof (rule that[of c])
    show "get_prop own_constructor h v = Inr (Ref c)" by (rule c)
    show "constructor_of h v = Ref c" using c by (simp add: constructor_of_def)
    show "has_hasOwnProperty h c" by (rule hc)
    show "delegate h True v = Inr [(False, Ref c)]" using c by (simp add: delegate_def)
    show "delegate h False (Ref c) = Inr [(False, Ref ANY)]" using pr by (simp add: delegate_def)
    show "role_methods p h i v = Inr (methods_at p h i v)" by (rule role_methods_ok[OF v])
    show "role_methods p h i (Ref c) = Inr (methods_at p h i (Ref c))"
      by (rule role_methods_ok) (simp_all add: hc)
  qed
qed

lemma walk_top_level:
  assumes "std h" and "top_level h v"
  shows "walk p h i 0 ((True, v) # rest) =
           (case walk p h i 3 rest of
              Inl e \<Rightarrow> Inl e
            | Inr (visited, left) \<Rightarrow>
                Inr ((True, v) # (False, constructor_of h v) # (False, Ref ANY) # visited, left))"
proof -
  from top_level_steps[OF assms(2), of p i] obtain c where
    c: "constructor_of h v = Ref c"
      "delegate h True v = Inr [(False, Ref c)]"
      "delegate h False (Ref c) = Inr [(False, Ref ANY)]"
      "role_methods p h i v = Inr (methods_at p h i v)"
      "role_methods p h i (Ref c) = Inr (methods_at p h i (Ref c))"
    by metis
  have any: "role_methods p h i (Ref ANY) = Inr (methods_at p h i (Ref ANY))"
    by (rule role_methods_ok) (simp_all add: std_has_hasOwnProperty[OF assms(1)])
  have s3: "walk p h i (Suc (Suc 0)) ((False, Ref ANY) # rest) =
      (case walk p h i (Suc (Suc (Suc 0))) rest of Inl e \<Rightarrow> Inl e
       | Inr (visited, left) \<Rightarrow> Inr ((False, Ref ANY) # visited, left))"
    using any std_delegate_any[OF assms(1)] by (subst walk_Cons) simp
  have s2: "walk p h i (Suc 0) ((False, Ref c) # rest) =
      (case walk p h i (Suc (Suc 0)) ((False, Ref ANY) # rest) of Inl e \<Rightarrow> Inl e
       | Inr (visited, left) \<Rightarrow> Inr ((False, Ref c) # visited, left))"
    using c by (subst walk_Cons) simp
  have s1: "walk p h i 0 ((True, v) # rest) =
      (case walk p h i (Suc 0) ((False, Ref c) # rest) of Inl e \<Rightarrow> Inl e
       | Inr (visited, left) \<Rightarrow> Inr ((True, v) # visited, left))"
    using c by (subst walk_Cons) simp
  show ?thesis
    unfolding s1 s2 s3 c(1) numeral_3_eq_3 by (simp split: sum.splits prod.splits)
qed


lemma has_entry_update_other:
  assumes "has_entry h a r m" and "b \<noteq> a"
  shows "has_entry (h[b := x]) a r m"
  using assms by (auto simp: has_entry_def)

lemma get_table_keeps:
  assumes "get_table p h v c = Inr (tr, p1, h1)" and "has_entry h a r m"
  shows "has_entry h1 a r m"
proof (cases v)
  case (Ref b)
  show ?thesis
  proof (cases "b = a")
    case True
    with assms Ref show ?thesis
      by (auto simp: get_table_def Let_def has_entry_def split: if_splits)
  next
    case False
    with assms Ref show ?thesis
      by (auto simp: get_table_def Let_def has_entry_update_other split: if_splits)
  qed
qed (use assms in \<open>auto simp: get_table_def split: option.splits if_splits\<close>)

lemma push_role_keeps:
  "t r = Some ms \<Longrightarrow> m \<in> set ms \<Longrightarrow>
     \<exists>ms'. push_role t r1 m1 r = Some ms' \<and> m \<in> set ms'"
  by (auto simp: push_role_def)

lemma push_role_adds: "\<exists>ms. push_role t r m r = Some ms \<and> m \<in> set ms"
  by (auto simp: push_role_def)

lemma table_set_push_keeps:
  assumes "table_set p1 h1 tr (push_role (table_of p1 h1 tr) r1 m1) = (p2, h2)"
    and "has_entry h1 a r m"
  shows "has_entry h2 a r m"
proof (cases tr)
  case (TObj b)
  show ?thesis
  proof (cases "b = a")
    case True
    from assms(2) obtain t ms where t: "a < length h1" "own_roles (h1 ! a) = Some t"
      "t r = Some ms" "m \<in> set ms"
      by (auto simp: has_entry_def)
    from push_role_keeps[of t r ms m r1 m1] t(3,4) obtain ms' where
      "push_role t r1 m1 r = Some ms'" "m \<in> set ms'" by blast
    with assms(1) TObj True t show ?thesis
      by (auto simp: table_set_def table_of_def has_entry_def)
  next
    case False
    with assms TObj show ?thesis
      by (auto simp: table_set_def has_entry_update_other)
  qed
qed (use assms in \<open>auto simp: table_set_def\<close>)

lemma method_loop_keeps:
  assumes "method_loop m1 i specs p h = Inr (p', h')" and "has_entry h a r m"
  shows "has_entry h' a r m"
  using assms
proof (induction specs arbitrary: i p h)
  case Nil
  then show ?case by simp
next
  case (Cons arg rest)
  from Cons.prems(1) obtain tr p1 h1 p2 h2 where
    g: "get_table p h arg True = Inr (Some tr, p1, h1)" and
    t: "table_set p1 h1 tr (push_role (table_of p1 h1 tr) (selector p1, i) m1) = (p2, h2)" and
    r: "method_loop m1 (Suc i) rest p2 h2 = Inr (p', h')"
    by (auto split: sum.splits option.splits prod.splits)
  from Cons.IH[OF r table_set_push_keeps[OF t get_table_keeps[OF g Cons.prems(2)]]]
  show ?case .
qed

lemma has_hasOwnProperty_bound: "has_hasOwnProperty h a \<Longrightarrow> a < length h"
  by (auto simp: has_hasOwnProperty_def proto_chain_def links_Ref split: if_splits)

lemma proto_chain_head: "a < length h \<Longrightarrow> \<exists>as. proto_chain h (Ref a) = a # as"
  by (auto simp: proto_chain_def links_Ref)

lemma roles_owner_self:
  assumes "a < length h" and "own_roles (h ! a) \<noteq> None"
  shows "roles_owner h a = Some a"
  using proto_chain_head[OF assms(1)] assms(2) by (auto simp: roles_owner_def)

lemma get_table_selector:
  "get_table p h v c = Inr (tr, p1, h1) \<Longrightarrow> selector p1 = selector p"
  by (auto simp: get_table_def Let_def split: val.splits option.splits if_splits)

lemma table_set_selector: "table_set p h tr t = (p', h') \<Longrightarrow> selector p' = selector p"
  by (auto simp: table_set_def split: tref.splits)

lemma method_loop_selector:
  "method_loop m i specs p h = Inr (p', h') \<Longrightarrow> selector p' = selector p"
proof (induction specs arbitrary: i p h)
  case Nil
  then show ?case by simp
next
  case (Cons arg rest)
  from Cons.prems(1) obtain tr p1 h1 p2 h2 where
    g: "get_table p h arg True = Inr (Some tr, p1, h1)" and
    t: "table_set p1 h1 tr (push_role (table_of p1 h1 tr) (selector p1, i) m) = (p2, h2)" and
    r: "method_loop m (Suc i) rest p2 h2 = Inr (p', h')"
    by (auto split: sum.splits option.splits prod.splits)
  from Cons.IH[OF r] table_set_selector[OF t] get_table_selector[OF g] show ?case by simp
qed

lemma get_table_create_ref:
  assumes "get_table p h (Ref a) True = Inr (tr, p1, h1)"
  shows "tr = Some (TObj a)" and "has_hasOwnProperty h a" and "own_roles (h1 ! a) \<noteq> None"
    and "p1 = p" and "a < length h1"
proof -
  from assms have hh: "has_hasOwnProperty h a"
    by (auto simp: get_table_def split: if_splits)
  then have a: "a < length h" by (rule has_hasOwnProperty_bound)
  from assms a have o: "own_roles (h1 ! a) \<noteq> None" and l: "length h1 = length h" and p: "p1 = p"
    by (auto simp: get_table_def Let_def split: if_splits)
  from assms have "tr = map_option TObj (roles_owner h1 a)"
    by (auto simp: get_table_def Let_def split: if_splits)
  with roles_owner_self[of a h1] a l o show "tr = Some (TObj a)" by simp
  show "has_hasOwnProperty h a" by (rule hh)
  show "own_roles (h1 ! a) \<noteq> None" by (rule o)
  show "p1 = p" by (rule p)
  show "a < length h1" using a l by simp
qed

lemma method_loop_registers:
  assumes "method_loop m i specs p h = Inr (p', h')" and "j < length specs"
    and "specs ! j = Ref a"
  shows "has_entry h' a (selector p, i + j) m \<and> has_hasOwnProperty h' a"
  using assms
proof (induction specs arbitrary: i j p h)
  case Nil
  then show ?case by simp
next
  case (Cons arg rest)
  from Cons.prems(1) obtain tr p1 h1 p2 h2 where
    g: "get_table p h arg True = Inr (Some tr, p1, h1)" and
    t: "table_set p1 h1 tr (push_role (table_of p1 h1 tr) (selector p1, i) m) = (p2, h2)" and
    r: "method_loop m (Suc i) rest p2 h2 = Inr (p', h')"
    by (auto split: sum.splits option.splits prod.splits)
  have sel: "selector p2 = selector p" "selector p1 = selector p"
    using table_set_selector[OF t] get_table_selector[OF g] by simp_all
  have sh: "shape h' = shape h"
    using method_loop_shape[OF r] table_set_shape[OF t] get_table_shape[OF g] by simp
  show ?case
  proof (cases j)
    case 0
    with Cons.prems(3) have arg: "arg = Ref a" by simp
    note c = get_table_create_ref[OF g[unfolded arg]]
    from c(1) have tr: "tr = TObj a" by simp
    have "has_entry h2 a (selector p, i) m"
      using t c(3,5) push_role_adds[of "table_of p1 h1 (TObj a)" "(selector p1, i)" m] sel(2)
      unfolding tr by (auto simp: table_set_def has_entry_def)
    from method_loop_keeps[OF r this] shape_has_hasOwnProperty[OF sh, of a] c(2) 0
    show ?thesis by simp
  next
    case (Suc j')
    with Cons.prems have "j' < length rest" "rest ! j' = Ref a" by simp_all
    from Cons.IH[OF r this] sel Suc show ?thesis by simp
  qed
qed

lemma methods_at_entry:
  assumes "has_entry h a (selector p, i) m" and "has_hasOwnProperty h a"
  shows "m \<in> set (methods_at p h i (Ref a))"
proof -
  from assms(1) obtain t ms where t: "a < length h" "own_roles (h ! a) = Some t"
    "t (selector p, i) = Some ms" "m \<in> set ms"
    by (auto simp: has_entry_def)
  have "roles_owner h a = Some a" using roles_owner_self[of a h] t by simp
  with assms(2) t show ?thesis
    by (simp add: methods_at_def role_methods_def get_table_def Let_def table_of_def)
qed

lemma visit_fill:
  "fill (fst (visit len i pos m st)) m' = fill (fst st) m' + (if m' = m then 1 else 0)"
  by (cases st) (auto simp: visit_def fill_def Let_def split: option.splits)

lemma fold_fill:
  "fill (fst (fold (visit_event len) evs st)) m =
     fill (fst st) m + length (filter (\<lambda>e. snd (snd e) = m) evs)"
  by (induction evs arbitrary: st) (auto simp: visit_event_def visit_fill)

lemma reached_init: "reached len (Map.empty, None)"
  by (simp add: reached_def)

lemma fill_pos: "0 < fill rs m \<Longrightarrow> \<exists>rk. rs m = Some rk \<and> filled rk = fill rs m"
  by (auto simp: fill_def split: option.splits)




lemma array_set_at: "i < length (array_set xs i x) \<and> array_set xs i x ! i = Some x"
  by (auto simp: array_set_def nth_append)





lemma not_isl_pair: "\<not> isl r \<Longrightarrow> \<exists>a b. r = Inr (a, b)"
  by (cases r) auto


lemma no_roles_nth: "no_roles h \<Longrightarrow> a < length h \<Longrightarrow> own_roles (h ! a) = None"
  by (simp add: no_roles_def list_all_length)

subsection \<open>Registration and the origin of table entries\<close>

lemma get_table_length: "get_table p h v c = Inr (r, p1, h1) \<Longrightarrow> length h1 = length h"
  using get_table_shape[of p h v c r p1 h1] shape_length[of h1 h] by simp

lemma table_set_length: "table_set p h tr t = (p2, h2) \<Longrightarrow> length h2 = length h"
  using table_set_shape[of p h tr t p2 h2] shape_length[of h2 h] by simp

lemma get_table_proc:
  "get_table p h v c = Inr (tr, p1, h1) \<Longrightarrow> pname p1 = pname p \<and> METHODS p1 = METHODS p"
  by (auto simp: get_table_def Let_def split: val.splits option.splits if_splits)

lemma table_set_proc:
  "table_set p h tr t = (p', h') \<Longrightarrow> pname p' = pname p \<and> METHODS p' = METHODS p"
  by (auto simp: table_set_def split: tref.splits)

lemma get_table_table_of:
  assumes "get_table p h v c = Inr (r, p1, h1)"
  shows "table_of p1 h1 tr = table_of p h tr"
proof (cases v)
  case (Ref a)
  with assms have "has_hasOwnProperty h a" by (auto simp: get_table_def split: if_splits)
  then have "a < length h" by (rule has_hasOwnProperty_bound)
  with assms Ref show ?thesis
    by (cases tr) (auto simp: get_table_def Let_def table_of_def nth_list_update split: if_splits)
qed (use assms in \<open>cases tr; auto simp: get_table_def table_of_def split: option.splits if_splits\<close>)+

lemma get_table_owner:
  assumes "get_table p h v True = Inr (r, p1, h1)"
  shows "r = owner_of v" and "\<forall>tr. r = Some tr \<longrightarrow> valid_tref h1 tr"
proof -
  show "r = owner_of v"
  proof (cases v)
    case (Ref a)
    with get_table_create_ref(1)[of p h a r p1 h1] assms show ?thesis by simp
  qed (use assms in \<open>auto simp: get_table_def split: option.splits if_splits\<close>)
  show "\<forall>tr. r = Some tr \<longrightarrow> valid_tref h1 tr"
  proof (cases v)
    case (Ref a)
    with get_table_create_ref(1,5)[of p h a r p1 h1] assms show ?thesis
      by (simp add: valid_tref_def)
  qed (use assms in \<open>auto simp: get_table_def valid_tref_def split: option.splits if_splits\<close>)
qed

lemma table_set_table_of:
  assumes "table_set p h tr t = (p2, h2)" and "valid_tref h tr"
  shows "table_of p2 h2 tr' = (if tr' = tr then t else table_of p h tr')"
  using assms
  by (cases tr; cases tr')
     (auto simp: table_set_def table_of_def valid_tref_def nth_list_update)

lemma valid_tref_length: "length h' = length h \<Longrightarrow> valid_tref h' tr = valid_tref h tr"
  by (simp add: valid_tref_def split: tref.splits)

lemma origin_push:
  assumes "origin R p h" and "get_table p h v True = Inr (Some tr, p1, h1)"
    and "table_set p1 h1 tr (push_role (table_of p1 h1 tr) (selector p1, i) m) = (p2, h2)"
  shows "origin (insert (m, i, v) R) p2 h2"
proof -
  have ow: "owner_of v = Some tr" "valid_tref h1 tr"
    using get_table_owner[OF assms(2)] by simp_all
  have sel: "selector p2 = selector p" "selector p1 = selector p"
    using table_set_selector[OF assms(3)] get_table_selector[OF assms(2)] by simp_all
  have len: "length h2 = length h"
    using table_set_length[OF assms(3)] get_table_length[OF assms(2)] by simp
  have t: "\<And>tr'. table_of p2 h2 tr' =
      (if tr' = tr then push_role (table_of p h tr) (selector p, i) m else table_of p h tr')"
    using table_set_table_of[OF assms(3) ow(2)] get_table_table_of[OF assms(2)] sel by simp
  show ?thesis
    unfolding origin_def
  proof (intro allI impI)
    fix tr' j ms m'
    assume a: "valid_tref h2 tr' \<and> table_of p2 h2 tr' (selector p2, j) = Some ms \<and> m' \<in> set ms"
    then have v: "valid_tref h tr'" using valid_tref_length[OF len] by simp
    show "\<exists>v'. (m', j, v') \<in> insert (m, i, v) R \<and> owner_of v' = Some tr'"
    proof (cases "tr' = tr \<and> j = i \<and> m' = m")
      case True
      with ow show ?thesis by auto
    next
      case False
      have "\<exists>ms0. table_of p h tr' (selector p, j) = Some ms0 \<and> m' \<in> set ms0"
        using a False unfolding t sel
        by (auto simp: push_role_def split: if_splits option.splits)
      with assms(1) v show ?thesis unfolding origin_def by blast
    qed
  qed
qed

lemma pushes_Nil: "pushes m i [] = {}"
  by (simp add: pushes_def)

lemma pushes_Cons: "pushes m i (x # xs) = insert (m, i, x) (pushes m (Suc i) xs)"
proof (rule set_eqI)
  fix y
  show "y \<in> pushes m i (x # xs) \<longleftrightarrow> y \<in> insert (m, i, x) (pushes m (Suc i) xs)"
  proof
    assume "y \<in> pushes m i (x # xs)"
    then obtain j where j: "j < Suc (length xs)" "y = (m, i + j, (x # xs) ! j)"
      by (auto simp: pushes_def)
    show "y \<in> insert (m, i, x) (pushes m (Suc i) xs)"
    proof (cases j)
      case 0
      with j show ?thesis by simp
    next
      case (Suc j')
      with j have "j' < length xs" "y = (m, Suc i + j', xs ! j')" by simp_all
      then show ?thesis unfolding pushes_def by blast
    qed
  next
    assume "y \<in> insert (m, i, x) (pushes m (Suc i) xs)"
    then consider "y = (m, i, x)" | j where "j < length xs" "y = (m, Suc i + j, xs ! j)"
      by (auto simp: pushes_def)
    then show "y \<in> pushes m i (x # xs)"
    proof cases
      case 1
      then have "0 < length (x # xs) \<and> y = (m, i + 0, (x # xs) ! 0)" by simp
      then show ?thesis unfolding pushes_def by blast
    next
      case 2
      then have "Suc j < length (x # xs) \<and> y = (m, i + Suc j, (x # xs) ! Suc j)" by simp
      then show ?thesis unfolding pushes_def by blast
    qed
  qed
qed

lemma origin_method_loop:
  assumes "method_loop m i specs p h = Inr (p', h')" and "origin R p h"
  shows "origin (R \<union> pushes m i specs) p' h'"
  using assms
proof (induction specs arbitrary: i p h R)
  case Nil
  then show ?case by (simp add: pushes_Nil)
next
  case (Cons arg rest)
  from Cons.prems(1) obtain tr p1 h1 p2 h2 where
    g: "get_table p h arg True = Inr (Some tr, p1, h1)" and
    t: "table_set p1 h1 tr (push_role (table_of p1 h1 tr) (selector p1, i) m) = (p2, h2)" and
    r: "method_loop m (Suc i) rest p2 h2 = Inr (p', h')"
    by (auto split: sum.splits option.splits prod.splits)
  from Cons.IH[OF r origin_push[OF Cons.prems(2) g t]]
  show ?case by (simp add: pushes_Cons)
qed

lemma table_of_METHODS: "table_of (p\<lparr>METHODS := x\<rparr>) h tr = table_of p h tr"
  by (cases tr) (simp_all add: table_of_def)

lemma origin_METHODS: "origin R (p\<lparr>METHODS := x\<rparr>) h = origin R p h"
  by (simp add: origin_def table_of_METHODS)

lemma method_loop_proc:
  "method_loop m i specs p h = Inr (p', h') \<Longrightarrow> pname p' = pname p \<and> METHODS p' = METHODS p"
proof (induction specs arbitrary: i p h)
  case Nil
  then show ?case by simp
next
  case (Cons arg rest)
  from Cons.prems(1) obtain tr p1 h1 p2 h2 where
    g: "get_table p h arg True = Inr (Some tr, p1, h1)" and
    t: "table_set p1 h1 tr (push_role (table_of p1 h1 tr) (selector p1, i) m) = (p2, h2)" and
    r: "method_loop m (Suc i) rest p2 h2 = Inr (p', h')"
    by (auto split: sum.splits option.splits prod.splits)
  from Cons.IH[OF r] get_table_proc[OF g] table_set_proc[OF t] show ?case by simp
qed

lemma method_reg_loop:
  assumes "method_reg p w specs body = Inr (p', w')"
  obtains p1 where
    "method_loop (pname p, gensym_counter w) 0 specs p (heap w) = Inr (p1, heap w')"
    "p' = p1\<lparr>METHODS := (METHODS p1)((pname p, gensym_counter w) \<mapsto> body)\<rparr>"
    "gensym_counter w' = Suc (gensym_counter w)"
  using assms
  by (auto simp: method_reg_def gensym_def Let_def split: sum.splits prod.splits)

lemma method_reg_facts:
  assumes "method_reg p w specs body = Inr (p', w')"
  shows "selector p' = selector p" and "pname p' = pname p"
    and "gensym_counter w' = Suc (gensym_counter w)"
    and "METHODS p' = (METHODS p)((pname p, gensym_counter w) \<mapsto> body)"
    and "shape (heap w') = shape (heap w)"
proof -
  from method_reg_loop[OF assms] obtain p1 where
    ml: "method_loop (pname p, gensym_counter w) 0 specs p (heap w) = Inr (p1, heap w')" and
    p': "p' = p1\<lparr>METHODS := (METHODS p1)((pname p, gensym_counter w) \<mapsto> body)\<rparr>" and
    c: "gensym_counter w' = Suc (gensym_counter w)"
    by blast
  show "selector p' = selector p" using method_loop_selector[OF ml] p' by simp
  show "pname p' = pname p" using method_loop_proc[OF ml] p' by simp
  show "gensym_counter w' = Suc (gensym_counter w)" by (rule c)
  show "METHODS p' = (METHODS p)((pname p, gensym_counter w) \<mapsto> body)"
    using method_loop_proc[OF ml] p' by simp
  show "shape (heap w') = shape (heap w)" by (rule method_shape[OF assms])
qed

lemma origin_method_reg:
  assumes "method_reg p w specs body = Inr (p', w')" and "origin R p (heap w)"
  shows "origin (R \<union> pushes (pname p, gensym_counter w) 0 specs) p' (heap w')"
proof -
  from method_reg_loop[OF assms(1)] obtain p1 where
    ml: "method_loop (pname p, gensym_counter w) 0 specs p (heap w) = Inr (p1, heap w')" and
    p': "p' = p1\<lparr>METHODS := (METHODS p1)((pname p, gensym_counter w) \<mapsto> body)\<rparr>"
    by blast
  from origin_method_loop[OF ml assms(2)] show ?thesis
    unfolding p' by (simp add: origin_METHODS)
qed

lemma method_reg_keeps:
  assumes "method_reg p w specs body = Inr (p', w')" and "has_entry (heap w) a r m"
  shows "has_entry (heap w') a r m"
proof -
  from method_reg_loop[OF assms(1)] obtain p1 where
    ml: "method_loop (pname p, gensym_counter w) 0 specs p (heap w) = Inr (p1, heap w')"
    by blast
  from method_loop_keeps[OF ml assms(2)] show ?thesis .
qed

lemma method_reg_registers:
  assumes "method_reg p w specs body = Inr (p', w')" and "j < length specs"
    and "specs ! j = Ref a"
  shows "has_entry (heap w') a (selector p, j) (pname p, gensym_counter w)"
    and "has_hasOwnProperty (heap w') a"
proof -
  from method_reg_loop[OF assms(1)] obtain p1 where
    ml: "method_loop (pname p, gensym_counter w) 0 specs p (heap w) = Inr (p1, heap w')"
    by blast
  from method_loop_registers[OF ml assms(2,3)]
  show "has_entry (heap w') a (selector p, j) (pname p, gensym_counter w)"
    and "has_hasOwnProperty (heap w') a" by simp_all
qed

lemma add_methods_Cons:
  assumes "add_methods (p, w) (sb # ms) = Inr (p', w')"
  obtains p1 w1 where "method_reg p w (fst sb) (snd sb) = Inr (p1, w1)"
    and "add_methods (p1, w1) ms = Inr (p', w')"
  using assms by (cases sb) (auto split: sum.splits)

lemma add_methods_facts:
  assumes "add_methods (p, w) ms = Inr (p', w')"
  shows "selector p' = selector p \<and> pname p' = pname p
       \<and> gensym_counter w' = gensym_counter w + length ms
       \<and> shape (heap w') = shape (heap w)"
  using assms
proof (induction ms arbitrary: p w)
  case Nil
  then show ?case by simp
next
  case (Cons sb ms)
  from add_methods_Cons[OF Cons.prems] obtain p1 w1 where
    m: "method_reg p w (fst sb) (snd sb) = Inr (p1, w1)" and
    r: "add_methods (p1, w1) ms = Inr (p', w')" by blast
  from Cons.IH[OF r] method_reg_facts[OF m] show ?case by simp
qed

lemma add_methods_old_METHODS:
  assumes "add_methods (p, w) ms = Inr (p', w')" and "c < gensym_counter w"
  shows "METHODS p' (pname p, c) = METHODS p (pname p, c)"
  using assms
proof (induction ms arbitrary: p w)
  case Nil
  then show ?case by simp
next
  case (Cons sb ms)
  from add_methods_Cons[OF Cons.prems(1)] obtain p1 w1 where
    m: "method_reg p w (fst sb) (snd sb) = Inr (p1, w1)" and
    r: "add_methods (p1, w1) ms = Inr (p', w')" by blast
  note f = method_reg_facts[OF m]
  have "c < gensym_counter w1" using f(3) Cons.prems(2) by simp
  from Cons.IH[OF r this] f Cons.prems(2) show ?case by simp
qed

lemma add_methods_METHODS:
  assumes "add_methods (p, w) ms = Inr (p', w')" and "k < length ms"
  shows "METHODS p' (pname p, gensym_counter w + k) = Some (snd (ms ! k))"
  using assms
proof (induction ms arbitrary: p w k)
  case Nil
  then show ?case by simp
next
  case (Cons sb ms)
  from add_methods_Cons[OF Cons.prems(1)] obtain p1 w1 where
    m: "method_reg p w (fst sb) (snd sb) = Inr (p1, w1)" and
    r: "add_methods (p1, w1) ms = Inr (p', w')" by blast
  note f = method_reg_facts[OF m]
  show ?case
  proof (cases k)
    case 0
    have "gensym_counter w < gensym_counter w1" using f(3) by simp
    from add_methods_old_METHODS[OF r this] f 0 show ?thesis by simp
  next
    case (Suc k')
    with Cons.prems(2) have "k' < length ms" by simp
    from Cons.IH[OF r this] f Suc show ?thesis by simp
  qed
qed

lemma add_methods_origin:
  assumes "add_methods (p, w) ms = Inr (p', w')" and "origin R p (heap w)"
  shows "origin (R \<union> regs (pname p) (gensym_counter w) ms) p' (heap w')"
  using assms
proof (induction ms arbitrary: p w R)
  case Nil
  then show ?case by simp
next
  case (Cons sb ms)
  from add_methods_Cons[OF Cons.prems(1)] obtain p1 w1 where
    m: "method_reg p w (fst sb) (snd sb) = Inr (p1, w1)" and
    r: "add_methods (p1, w1) ms = Inr (p', w')" by blast
  note f = method_reg_facts[OF m]
  from Cons.IH[OF r origin_method_reg[OF m Cons.prems(2)]] f
  show ?case by (simp add: Un_assoc)
qed

lemma add_methods_keeps:
  assumes "add_methods (p, w) ms = Inr (p', w')" and "has_entry (heap w) a r m"
  shows "has_entry (heap w') a r m"
  using assms
proof (induction ms arbitrary: p w)
  case Nil
  then show ?case by simp
next
  case (Cons sb ms)
  from add_methods_Cons[OF Cons.prems(1)] obtain p1 w1 where
    m: "method_reg p w (fst sb) (snd sb) = Inr (p1, w1)" and
    r: "add_methods (p1, w1) ms = Inr (p', w')" by blast
  from Cons.IH[OF r method_reg_keeps[OF m Cons.prems(2)]] show ?case .
qed

lemma add_methods_registers:
  assumes "add_methods (p, w) ms = Inr (p', w')" and "k < length ms"
    and "j < length (fst (ms ! k))" and "fst (ms ! k) ! j = Ref a"
  shows "has_entry (heap w') a (selector p, j) (pname p, gensym_counter w + k)
       \<and> has_hasOwnProperty (heap w') a"
  using assms
proof (induction ms arbitrary: p w k)
  case Nil
  then show ?case by simp
next
  case (Cons sb ms)
  from add_methods_Cons[OF Cons.prems(1)] obtain p1 w1 where
    m: "method_reg p w (fst sb) (snd sb) = Inr (p1, w1)" and
    r: "add_methods (p1, w1) ms = Inr (p', w')" by blast
  note f = method_reg_facts[OF m]
  show ?case
  proof (cases k)
    case 0
    with Cons.prems have j: "j < length (fst sb)" "fst sb ! j = Ref a" by simp_all
    note e = method_reg_registers[OF m j]
    have sh: "shape (heap w') = shape (heap w1)" using add_methods_facts[OF r] by simp
    from add_methods_keeps[OF r e(1)] shape_has_hasOwnProperty[OF sh, of a] e(2) 0
    show ?thesis by simp
  next
    case (Suc k')
    with Cons.prems have "k' < length ms" "j < length (fst (ms ! k'))" "fst (ms ! k') ! j = Ref a"
      by simp_all
    from Cons.IH[OF r this] f Suc show ?thesis by simp
  qed
qed

lemma regs_iff:
  "(m, j, v) \<in> regs name c ms \<longleftrightarrow>
     (\<exists>k < length ms. m = (name, c + k) \<and> j < length (fst (ms ! k)) \<and> v = fst (ms ! k) ! j)"
proof (induction ms arbitrary: c)
  case Nil
  then show ?case by simp
next
  case (Cons sb ms)
  have "(\<exists>k < length (sb # ms). m = (name, c + k) \<and> j < length (fst ((sb # ms) ! k))
           \<and> v = fst ((sb # ms) ! k) ! j)
        \<longleftrightarrow> (m = (name, c) \<and> j < length (fst sb) \<and> v = fst sb ! j)
          \<or> (\<exists>k < length ms. m = (name, Suc c + k) \<and> j < length (fst (ms ! k))
                \<and> v = fst (ms ! k) ! j)"
    (is "?l \<longleftrightarrow> ?a \<or> ?b")
  proof
    assume ?l
    then obtain k where k: "k < length (sb # ms)" "m = (name, c + k)"
      "j < length (fst ((sb # ms) ! k))" "v = fst ((sb # ms) ! k) ! j" by blast
    show "?a \<or> ?b"
    proof (cases k)
      case 0
      with k show ?thesis by simp
    next
      case (Suc k')
      with k have "k' < length ms \<and> m = (name, Suc c + k') \<and> j < length (fst (ms ! k'))
                \<and> v = fst (ms ! k') ! j" by simp
      then show ?thesis by blast
    qed
  next
    assume "?a \<or> ?b"
    then show ?l
    proof
      assume ?a
      then show ?l by (intro exI[of _ 0]) simp
    next
      assume ?b
      then obtain k where "k < length ms" "m = (name, Suc c + k)" "j < length (fst (ms ! k))"
        "v = fst (ms ! k) ! j" by blast
      then show ?l by (intro exI[of _ "Suc k"]) simp
    qed
  qed
  moreover have "(m, j, v) \<in> pushes (name, c) 0 (fst sb)
      \<longleftrightarrow> (m = (name, c) \<and> j < length (fst sb) \<and> v = fst sb ! j)"
    by (auto simp: pushes_def)
  ultimately show ?case using Cons.IH[of "Suc c"] by simp
qed

lemma origin_procedure:
  assumes "roles_drawn w" and "procedure name w = (p, w1)"
  shows "origin {} p (heap w1)" and "pname p = name" and "selector p = (name, gensym_counter w)"
    and "gensym_counter w1 = Suc (gensym_counter w)" and "heap w1 = heap w"
proof -
  from assms(2) have p: "pname p = name" "selector p = (name, gensym_counter w)"
    "gensym_counter w1 = Suc (gensym_counter w)" "heap w1 = heap w"
    "STRINGS p = Map.empty" "NUMBERS p = Map.empty" "TRUE_TABLE p = Map.empty"
    "FALSE_TABLE p = Map.empty" "NULL_TABLE p = Map.empty"
    by (auto simp: procedure_def gensym_def)
  show "pname p = name" "selector p = (name, gensym_counter w)"
    "gensym_counter w1 = Suc (gensym_counter w)" "heap w1 = heap w"
    using p by simp_all
  show "origin {} p (heap w1)"
    unfolding origin_def
  proof (intro allI impI)
    fix tr j ms m
    assume a: "valid_tref (heap w1) tr \<and> table_of p (heap w1) tr (selector p, j) = Some ms \<and> m \<in> set ms"
    have "table_of p (heap w1) tr (selector p, j) = None"
    proof (cases tr)
      case (TObj a')
      with a have "a' < length (heap w)" using p(4) by (simp add: valid_tref_def)
      with assms(1) have "\<And>t. own_roles (heap w ! a') = Some t \<Longrightarrow> t (selector p, j) = None"
        unfolding roles_drawn_def p(2) by fastforce
      then show ?thesis using TObj p(4) by (simp add: table_of_def split: option.splits)
    qed (simp_all add: table_of_def p)
    with a show "\<exists>v. (m, j, v) \<in> {} \<and> owner_of v = Some tr" by simp
  qed
qed

subsection \<open>The events of a call\<close>

lemma array_set_keeps_exact:
  "j \<noteq> i \<Longrightarrow> j < length xs \<Longrightarrow> xs ! j = Some d \<Longrightarrow>
     j < length (array_set xs i x) \<and> array_set xs i x ! j = Some d"
  by (auto simp: array_set_def nth_append nth_list_update)

lemma visit_ranked_at: "ranked_at (fst (visit len i d m st)) m i d"
  by (cases st) (auto simp: visit_def ranked_at_def Let_def array_set_at split: option.splits)

lemma visit_keeps_ranked_at:
  assumes "ranked_at (fst st) m' j d" and "m' \<noteq> m \<or> j \<noteq> i \<or> d = pos"
  shows "ranked_at (fst (visit len i pos m st)) m' j d"
proof (cases "m' = m \<and> j = i")
  case True
  with assms(2) visit_ranked_at[of len i pos m st] show ?thesis by simp
next
  case False
  obtain rs best where st: "st = (rs, best)" by (cases st)
  from assms(1) st obtain rk where rk: "rs m' = Some rk" "j < length (vector rk)"
    "vector rk ! j = Some d"
    by (auto simp: ranked_at_def)
  show ?thesis
  proof (cases "m' = m")
    case True
    with False have "j \<noteq> i" by simp
    from array_set_keeps_exact[OF this rk(2,3), of pos] rk True show ?thesis
      by (auto simp: st visit_def ranked_at_def Let_def)
  next
    case False
    with rk show ?thesis
      by (auto simp: st visit_def ranked_at_def Let_def)
  qed
qed

lemma fold_keeps_ranked_at:
  assumes "ranked_at (fst st) m j d"
    and "\<forall>e \<in> set evs. fst e = j \<and> snd (snd e) = m \<longrightarrow> fst (snd e) = d"
  shows "ranked_at (fst (fold (visit_event len) evs st)) m j d"
  using assms
proof (induction evs arbitrary: st)
  case Nil
  then show ?case by simp
next
  case (Cons e evs)
  have "ranked_at (fst (visit_event len e st)) m j d"
    unfolding visit_event_def
    using Cons.prems by (intro visit_keeps_ranked_at) auto
  from Cons.IH[OF this] Cons.prems(2) show ?case by simp
qed

lemma fold_ranked_at:
  assumes "(j, d, m) \<in> set evs"
    and "\<forall>e \<in> set evs. fst e = j \<and> snd (snd e) = m \<longrightarrow> fst (snd e) = d"
  shows "ranked_at (fst (fold (visit_event len) evs st)) m j d"
  using assms
proof (induction evs arbitrary: st)
  case Nil
  then show ?case by simp
next
  case (Cons e evs)
  show ?case
  proof (cases "e = (j, d, m)")
    case True
    have "ranked_at (fst (visit_event len e st)) m j d"
      unfolding True visit_event_def by (simp add: visit_ranked_at)
    from fold_keeps_ranked_at[OF this, of evs len] Cons.prems(2) show ?thesis by simp
  next
    case False
    with Cons.prems(1) have "(j, d, m) \<in> set evs" by simp
    from Cons.IH[OF this] Cons.prems(2) show ?thesis by simp
  qed
qed


lemma visit_best:
  "snd (visit len i pos m st) = snd st \<or> snd (visit len i pos m st) = Some m"
  by (cases st) (auto simp: visit_def Let_def)

lemma fold_best_event:
  "snd (fold (visit_event len) evs st) = Some b \<Longrightarrow>
     snd st = Some b \<or> b \<in> (\<lambda>e. snd (snd e)) ` set evs"
proof (induction evs arbitrary: st)
  case Nil
  then show ?case by simp
next
  case (Cons e evs)
  from Cons.IH[of "visit_event len e st"] Cons.prems
  have "snd (visit_event len e st) = Some b \<or> b \<in> (\<lambda>e. snd (snd e)) ` set evs" by simp
  then show ?case
  proof
    assume "snd (visit_event len e st) = Some b"
    with visit_best[of len "fst e" "fst (snd e)" "snd (snd e)" st]
    show ?thesis by (auto simp: visit_event_def)
  next
    assume "b \<in> (\<lambda>e. snd (snd e)) ` set evs"
    then show ?thesis by auto
  qed
qed

lemma hits_top_entries:
  "hits p h i 0 (top_entries h v) =
     map (Pair 0) (methods_at p h i v) @ map (Pair 1) (methods_at p h i (constructor_of h v)) @
     map (Pair 2) (methods_at p h i (Ref ANY))"
  by (simp add: top_entries_def numeral_2_eq_2)

lemma for_walk_top_events:
  assumes "std h" and "\<forall>v \<in> set args. top_level h v"
  shows "for_walk p h args i [] =
           Inr (concat (map (\<lambda>j. map (Pair j) (hits p h j 0 (top_entries h (args ! j))))
                          [i..<length args]), [])"
proof (induction "length args - i" arbitrary: i)
  case 0
  then show ?case by (simp add: for_walk.simps[of p h args i])
next
  case (Suc k)
  then have lt: "i < length args" by simp
  then have tl: "top_level h (args ! i)" using assms(2) by simp
  have w: "walk p h i 0 [(True, args ! i)] = Inr (top_entries h (args ! i), [])"
    using walk_top_level[OF assms(1) tl, of p i "[]"] by (simp add: walk_Nil top_entries_def)
  have "k = length args - (i + 1)" using Suc.hyps(2) by simp
  from Suc.hyps(1)[OF this]
  have ev: "for_walk p h args (i + 1) [] =
      Inr (concat (map (\<lambda>j. map (Pair j) (hits p h j 0 (top_entries h (args ! j))))
                          [i + 1..<length args]), [])" .
  have u: "[i..<length args] = i # [i + 1..<length args]"
    using lt by (simp add: upt_conv_Cons)
  show ?case
    using lt w ev unfolding u by (simp add: for_walk.simps[of p h args i])
qed

lemma methods_at_origin:
  assumes "origin R p h" and "m \<in> set (methods_at p h j x)"
  shows "\<exists>v. (m, j, v) \<in> R \<and>
           (case x of
              Ref a \<Rightarrow> \<exists>b \<in> set (proto_chain h (Ref a)). v = Ref b
            | Undefined \<Rightarrow> False
            | _ \<Rightarrow> v = x)"
proof -
  from assms(2) obtain tr ms where
    g: "get_table p h x False = Inr (Some tr, p, h)" and
    t: "table_of p h tr (selector p, j) = Some ms" "m \<in> set ms"
    by (auto simp: methods_at_def role_methods_def get_table_def Let_def
             split: sum.splits option.splits val.splits if_splits)
  have v: "valid_tref h tr"
  proof (cases x)
    case (Ref a)
    with g obtain b where "tr = TObj b" "roles_owner h a = Some b"
      by (auto simp: get_table_def Let_def split: if_splits)
    then have "b \<in> set (proto_chain h (Ref a))"
      by (auto simp: roles_owner_def dest: find_Some_iff[THEN iffD1] nth_mem)
    then show ?thesis using proto_chain_bound \<open>tr = TObj b\<close> by (auto simp: valid_tref_def)
  qed (use g in \<open>auto simp: get_table_def valid_tref_def split: option.splits if_splits\<close>)
  from assms(1) v t obtain v' where v': "(m, j, v') \<in> R" "owner_of v' = Some tr"
    unfolding origin_def by blast
  have "case x of
              Ref a \<Rightarrow> \<exists>b \<in> set (proto_chain h (Ref a)). v' = Ref b
            | Undefined \<Rightarrow> False
            | _ \<Rightarrow> v' = x"
  proof (cases x)
    case (Ref a)
    with g obtain b where b: "tr = TObj b" "roles_owner h a = Some b"
      by (auto simp: get_table_def Let_def split: if_splits)
    then have "b \<in> set (proto_chain h (Ref a))"
      by (auto simp: roles_owner_def dest: find_Some_iff[THEN iffD1] nth_mem)
    moreover have "v' = Ref b" using v'(2) b(1) by (cases v') (auto split: if_splits)
    ultimately show ?thesis using Ref by auto
  qed (use g v'(2) in \<open>cases v'; auto simp: get_table_def split: option.splits if_splits\<close>)+
  with v'(1) show ?thesis by blast
qed

subsection \<open>A procedure and its registered methods\<close>

lemma no_roles_drawn: "no_roles (heap w) \<Longrightarrow> roles_drawn w"
  by (auto simp: roles_drawn_def dest: no_roles_nth)

lemma top_events_iff:
  "(j, d, m) \<in> set (top_events p h args) \<longleftrightarrow>
     j < length args \<and>
     ((d = 0 \<and> m \<in> set (methods_at p h j (args ! j))) \<or>
      (d = 1 \<and> m \<in> set (methods_at p h j (constructor_of h (args ! j)))) \<or>
      (d = 2 \<and> m \<in> set (methods_at p h j (Ref ANY))))"
  by (auto simp: top_events_def hits_top_entries)


lemma for_loop_top:
  assumes "std h" and "\<forall>v \<in> set args. top_level h v"
  shows "for_loop p h args 0 init_state =
           Inr \<lparr>ranks = fst (fold (visit_event (length args)) (top_events p h args) (Map.empty, None)),
                mostspecificmethod =
                  snd (fold (visit_event (length args)) (top_events p h args) (Map.empty, None)),
                stack = []\<rparr>"
  using for_walk_top_events[OF assms, of p 0]
  by (simp add: for_loop_walk init_state_def top_events_def)

lemma dispatch_best:
  assumes "for_loop p h args 0 init_state = Inr s" and "mostspecificmethod s = Some b"
    and "METHODS p b = Some body"
  shows "dispatch p h args = Inr (body args)"
  using assms by (simp add: dispatch_def lookup_def)

lemma lookup_best:
  assumes "for_loop p h args 0 init_state = Inr s" and "mostspecificmethod s = Some b"
  shows "lookup p h args = Inr (METHODS p b)"
  using assms by (simp add: lookup_def)

lemma method_name_inj: "method_name name w0 k = method_name name w0 k' \<longleftrightarrow> k = k'"
  by (simp add: method_name_def)

lemma registered_frame:
  assumes "std (heap w0)" and "roles_drawn w0"
    and "add_methods (procedure name w0) ms = Inr (p :: 'b proc, w)"
  shows "std (heap w)" and "shape (heap w) = shape (heap w0)"
    and "origin (regs name (Suc (gensym_counter w0)) ms) p (heap w)"
    and "\<And>k. k < length ms \<Longrightarrow> METHODS p (method_name name w0 k) = Some (snd (ms ! k))"
    and "\<And>k j a. k < length ms \<Longrightarrow> j < length (fst (ms ! k)) \<Longrightarrow> fst (ms ! k) ! j = Ref a \<Longrightarrow>
           method_name name w0 k \<in> set (methods_at p (heap w) j (Ref a))"
proof -
  obtain p0 w1 where pr: "procedure name w0 = (p0 :: 'b proc, w1)"
    by (cases "procedure name w0 :: 'b proc \<times> world")
  note o = origin_procedure[OF assms(2) pr]
  from assms(3) pr have am: "add_methods (p0, w1) ms = Inr (p, w)" by simp
  note f = add_methods_facts[OF am]
  show sh: "shape (heap w) = shape (heap w0)" using f o(5) by simp
  show "std (heap w)" using shape_std[OF sh] assms(1) by simp
  show "origin (regs name (Suc (gensym_counter w0)) ms) p (heap w)"
    using add_methods_origin[OF am o(1)] o(2,4) by simp
  show "METHODS p (method_name name w0 k) = Some (snd (ms ! k))" if "k < length ms" for k
    using add_methods_METHODS[OF am that] o(2,4) by (simp add: method_name_def)
  show "method_name name w0 k \<in> set (methods_at p (heap w) j (Ref a))"
    if "k < length ms" "j < length (fst (ms ! k))" "fst (ms ! k) ! j = Ref a" for k j a
  proof -
    from add_methods_registers[OF am that] o(2,4) f
    have "has_entry (heap w) a (selector p, j) (method_name name w0 k)"
      "has_hasOwnProperty (heap w) a"
      by (simp_all add: method_name_def)
    from methods_at_entry[OF this] show ?thesis .
  qed
qed

lemma regs_method_name:
  assumes "(m, j, v) \<in> regs name (Suc (gensym_counter w0)) ms"
  obtains k where "k < length ms" and "m = method_name name w0 k"
    and "j < length (fst (ms ! k))" and "v = fst (ms ! k) ! j"
  using assms unfolding regs_iff by (auto simp: method_name_def)

section \<open>The claims\<close>

text \<open>
  C1 (as the code behaves).  The tests "Lexical order" and "Tiebreaker second arg" on
  index.js: with A registered for (Super, Sub) and B for (Sub, Super), the call with two
  \<^verbatim>\<open>new Sub()\<close> values finds no applicable method, where the claim expects B; with A for
  (Super, Sub) and B for (Super, Super) the call selects B, where the claim expects A.
  The walk goes from \<^verbatim>\<open>new Sub()\<close> to its \<^verbatim>\<open>constructor\<close>, which is Super, so Sub is never
  visited.
\<close>

theorem lexical_order_tests_fail:
  "run_test ''lexical-test-proc''
     [([Ref SUPER, Ref SUB], \<lambda>_. ''A''), ([Ref SUB, Ref SUPER], \<lambda>_. ''B'')]
     [Ref NEW_SUB1, Ref NEW_SUB2] = Inl NoApplicableMethod
   \<and> run_test ''tiebreak-test-proc''
     [([Ref SUPER, Ref SUB], \<lambda>_. ''A''), ([Ref SUPER, Ref SUPER], \<lambda>_. ''B'')]
     [Ref NEW_SUB1, Ref NEW_SUB2] = Inr ''B''"
  by code_simp

text \<open>
  C2 (as the code behaves).  The test "Closest wins" on index.js: with one method on Super
  and one on Sub, the call with \<^verbatim>\<open>new Sub()\<close> selects the method of Super.
\<close>

theorem closest_wins_test_fails:
  "run_test ''closest-test-proc''
     [([Ref SUPER], \<lambda>_. ''super''), ([Ref SUB], \<lambda>_. ''sub'')]
     [Ref NEW_SUB1] = Inr ''super''"
  by code_simp

text \<open>
  C3 (as the code behaves).  A method registered for (Object.prototype, Number) is called
  with \<^verbatim>\<open>({}, 'str')\<close>.  The table of \<^verbatim>\<open>Object.prototype\<close> is read, by inheritance of
  \<^verbatim>\<open>__roles__\<close>, at \<^verbatim>\<open>{}\<close>, at \<^verbatim>\<open>Object\<close> and at \<^verbatim>\<open>ANY\<close>: the counter of the method reaches
  2 at the first position, and the method is applied although the string matches nothing
  at the second position.  The three methods of the test "Method appears once each role"
  resolve to the (String, Function) method.
\<close>

theorem filled_counts_a_position_twice:
  "run_test ''once-per-role-test-proc''
     [([Ref OBJPROTO, Ref NUMBER], \<lambda>_. ''m'')]
     [Ref EMPTY_OBJ, Str ''str''] = Inr ''m''
   \<and> run_test ''once-per-role-test-proc''
     [([Ref SUB, Ref FUNCTION], \<lambda>_. ''sub''), ([Ref OBJECT, Ref FUNCTION], \<lambda>_. ''object''),
      ([Ref STRING, Ref FUNCTION], \<lambda>_. ''string'')]
     [Str ''foo'', Ref FN] = Inr ''string''"
  by code_simp

text \<open>
  C4 (as the code behaves).  A method registered for (Number, Number) is called with the
  one argument 1.  \<^verbatim>\<open>method\<close> records it under both roles in the table of \<^verbatim>\<open>Number\<close>; \<^verbatim>\<open>lookup\<close>
  reads the role of position 0 only, the counter \<^verbatim>\<open>filled\<close> reaches 1, the number of
  arguments, and \<^verbatim>\<open>dispatch\<close> applies the method, although the argument count matches no
  registered method's specializer count.  (With more arguments than specializers the
  no-applicable-method condition is raised.)
\<close>

theorem arity_mismatch_applies_method:
  "run_test ''p'' [([Ref NUMBER, Ref NUMBER], \<lambda>_. ''f'')] [Num 1] = Inr ''f''
   \<and> run_test ''p'' [([Ref NUMBER], \<lambda>_. ''f'')] [Num 1, Num 2] = Inl NoApplicableMethod"
  by code_simp

text \<open>
  C5.  Take a world with the built-in objects in place whose role tables, if there are
  any, belong to procedures created before.  Create a procedure and register a list of
  methods, in which the method number \<open>k\<close> has the type marker \<^verbatim>\<open>Number\<close>, \<^verbatim>\<open>String\<close> or
  \<^verbatim>\<open>Boolean\<close> at position \<open>i\<close>; other methods may be registered before and after it.  Call
  the procedure with strings, numbers, booleans or objects with a top-level constructor,
  and with a number, a string or a boolean of that type at position \<open>i\<close>.  (String
  specializers and arguments are \<open>plain\<close>.)  Then \<^verbatim>\<open>lookup\<close> runs through its loops without an
  error, and at their end the vector of method \<open>k\<close> holds the distance 1 at position \<open>i\<close>:
  the walk passes from the value to its type marker and on to \<^verbatim>\<open>ANY\<close>, and the method is
  found at the marker and nowhere else on the walk.  When the call has this one argument
  and the method this one specializer, \<^verbatim>\<open>lookup\<close> returns the body of a registered method
  and \<^verbatim>\<open>dispatch\<close> applies it to the argument; it is the body of method \<open>k\<close> when no other
  method is registered, at position 0, for the value, its type marker, \<^verbatim>\<open>ANY\<close>,
  \<^verbatim>\<open>Function.prototype\<close> or \<^verbatim>\<open>Object.prototype\<close>.
\<close>

theorem primitive_matches_type_marker:
  assumes "std (heap w0)" and "roles_drawn w0"
    and "add_methods (procedure name w0) ms = Inr (p, w)"
    and "plain_methods ms" and "list_all plain args"
    and "\<forall>a \<in> set args. top_level (heap w0) a"
    and "k < length ms" and "i < length (fst (ms ! k))" and "fst (ms ! k) ! i = Ref c"
    and "i < length args" and "args ! i = v"
    and "(v, c) \<in> {(Num n, NUMBER), (Str x, STRING), (Bool b, BOOLEAN)}"
  shows "walk p (heap w) i 0 [(True, v)] = Inr ([(True, v), (False, Ref c), (False, Ref ANY)], [])
       \<and> (\<exists>s rk. for_loop p (heap w) args 0 init_state = Inr s
            \<and> ranks s (method_name name w0 k) = Some rk
            \<and> i < length (vector rk) \<and> vector rk ! i = Some 1)
       \<and> (length args = 1 \<and> length (fst (ms ! k)) = 1 \<longrightarrow>
            (\<exists>j < length ms. lookup p (heap w) args = Inr (Some (snd (ms ! j)))
                \<and> dispatch p (heap w) args = Inr (snd (ms ! j) args))
          \<and> ((\<forall>j < length ms. j \<noteq> k \<and> fst (ms ! j) \<noteq> [] \<longrightarrow>
                  fst (ms ! j) ! 0 \<notin> {v, Ref c, Ref ANY, Ref FUNPROTO, Ref OBJPROTO})
               \<longrightarrow> lookup p (heap w) args = Inr (Some (snd (ms ! k)))
                 \<and> dispatch p (heap w) args = Inr (snd (ms ! k) args)))"
proof -
  let ?h = "heap w"
  let ?m = "method_name name w0 k"
  let ?R = "regs name (Suc (gensym_counter w0)) ms"
  let ?evs = "top_events p ?h args"
  let ?st = "fold (visit_event (length args)) ?evs (Map.empty, None)"
  note fr = registered_frame[OF assms(1,2,3)]
  have tl: "\<forall>a \<in> set args. top_level ?h a"
    using assms(6) shape_top_level[OF fr(2)] by simp
  have c: "constructor_of ?h v = Ref c"
    using assms(12) std_constructor_of_prim[OF fr(1)] by auto
  have chain: "set (proto_chain ?h (Ref c)) = {c, FUNPROTO, OBJPROTO}"
    "set (proto_chain ?h (Ref ANY)) = {ANY, FUNPROTO, OBJPROTO}"
    using assms(12) std_chain_cons[OF fr(1), of c] std_chain_cons[OF fr(1), of ANY] by auto
  have cne: "c \<noteq> ANY" "c \<noteq> FUNPROTO" "c \<noteq> OBJPROTO"
    using assms(12) by (auto simp: builtin_defs)
  have prim: "v \<noteq> Undefined" "\<And>a. v \<noteq> Ref a"
    using assms(12) by auto
  have loop: "for_loop p ?h args 0 init_state =
      Inr \<lparr>ranks = fst ?st, mostspecificmethod = snd ?st, stack = []\<rparr>"
    by (rule for_loop_top[OF fr(1) tl])
  have "top_level ?h v" using tl assms(10,11) by auto
  from walk_top_level[OF fr(1) this, of p i "[]"]
  have wk: "walk p ?h i 0 [(True, v)] = Inr ([(True, v), (False, Ref c), (False, Ref ANY)], [])"
    by (simp add: walk_Nil c)
  have reg: "?m \<in> set (methods_at p ?h i (Ref c))"
    by (rule fr(5)[OF assms(7,8,9)])
  have spec: "v' = Ref c" if "(?m, i, v') \<in> ?R" for v'
  proof -
    from regs_method_name[OF that] obtain k' where
      "k' < length ms" "?m = method_name name w0 k'" "v' = fst (ms ! k') ! i" by blast
    then show ?thesis using assms(9) by (simp add: method_name_inj)
  qed
  have at: "x = Ref c \<or> (\<exists>a. x = Ref a \<and> c \<in> set (proto_chain ?h (Ref a)))"
    if "?m \<in> set (methods_at p ?h i x)" for x
  proof -
    from methods_at_origin[OF fr(3) that] obtain v' where
      v': "(?m, i, v') \<in> ?R"
        "case x of Ref a \<Rightarrow> \<exists>b \<in> set (proto_chain ?h (Ref a)). v' = Ref b
            | Undefined \<Rightarrow> False | _ \<Rightarrow> v' = x" by blast
    from spec[OF v'(1)] v'(2) show ?thesis by (cases x) auto
  qed
  have ev: "(i, 1, ?m) \<in> set ?evs"
    unfolding top_events_iff using assms(10,11) reg c by simp
  have only: "\<forall>e \<in> set ?evs. fst e = i \<and> snd (snd e) = ?m \<longrightarrow> fst (snd e) = 1"
  proof (intro ballI impI)
    fix e
    assume e: "e \<in> set ?evs" and "fst e = i \<and> snd (snd e) = ?m"
    then have "(i, fst (snd e), ?m) \<in> set ?evs" by (metis prod.collapse)
    then consider "fst (snd e) = 0" "?m \<in> set (methods_at p ?h i v)"
      | "fst (snd e) = 1"
      | "fst (snd e) = 2" "?m \<in> set (methods_at p ?h i (Ref ANY))"
      unfolding top_events_iff using assms(11) by auto
    then show "fst (snd e) = 1"
    proof cases
      case 1
      from at[OF 1(2)] prim cne show ?thesis using assms(12) by auto
    next
      case 2
      then show ?thesis .
    next
      case 3
      from at[OF 3(2)] chain(2) cne show ?thesis by auto
    qed
  qed
  from fold_ranked_at[OF ev only, of "length args" "(Map.empty, None)"]
  obtain rk where rk: "fst ?st ?m = Some rk" "i < length (vector rk)" "vector rk ! i = Some 1"
    unfolding ranked_at_def by blast
  have first: "\<exists>s rk. for_loop p ?h args 0 init_state = Inr s
            \<and> ranks s ?m = Some rk \<and> i < length (vector rk) \<and> vector rk ! i = Some 1"
    using loop rk by simp
  have second: "(\<exists>j < length ms. lookup p ?h args = Inr (Some (snd (ms ! j)))
                \<and> dispatch p ?h args = Inr (snd (ms ! j) args))
          \<and> ((\<forall>j < length ms. j \<noteq> k \<and> fst (ms ! j) \<noteq> [] \<longrightarrow>
                  fst (ms ! j) ! 0 \<notin> {v, Ref c, Ref ANY, Ref FUNPROTO, Ref OBJPROTO})
               \<longrightarrow> lookup p ?h args = Inr (Some (snd (ms ! k)))
                 \<and> dispatch p ?h args = Inr (snd (ms ! k) args))"
    if one: "length args = 1" "length (fst (ms ! k)) = 1"
  proof -
    have i0: "i = 0" using assms(10) one(1) by simp
    have a0: "args ! 0 = v" using assms(11) i0 by simp
    have "filter (\<lambda>e. snd (snd e) = ?m) ?evs \<noteq> []"
      using ev by (force simp: filter_empty_conv)
    then have "1 \<le> length (filter (\<lambda>e. snd (snd e) = ?m) ?evs)"
      by (cases "filter (\<lambda>e. snd (snd e) = ?m) ?evs") simp_all
    then have fl: "1 \<le> fill (fst ?st) ?m"
      using fold_fill[of "length args" ?evs "(Map.empty, None)" ?m] by (simp add: fill_def)
    then have "0 < fill (fst ?st) ?m" by simp
    from fill_pos[OF this] rk(1) have "filled rk = fill (fst ?st) ?m" by simp
    with fl one(1) have "length args \<le> filled rk" by simp
    moreover have "reached (length args) ?st"
      using one(1) by (intro reached_fold reached_init) simp
    ultimately obtain best where best: "snd ?st = Some best"
      unfolding reached_def using rk(1) by blast
    from fold_best_event[OF best] obtain j d where
      e: "(j, d, best) \<in> set ?evs" by force
    then have j0: "j = 0" using one(1) unfolding top_events_iff by simp
    from e obtain y where y: "best \<in> set (methods_at p ?h 0 y)" "y \<in> {v, Ref c, Ref ANY}"
      unfolding top_events_iff j0 using a0 c by auto
    from methods_at_origin[OF fr(3) y(1)] obtain v' where
      v': "(best, 0, v') \<in> ?R"
        "case y of Ref a \<Rightarrow> \<exists>b \<in> set (proto_chain ?h (Ref a)). v' = Ref b
            | Undefined \<Rightarrow> False | _ \<Rightarrow> v' = y" by blast
    have seen: "v' \<in> {v, Ref c, Ref ANY, Ref FUNPROTO, Ref OBJPROTO}"
      using y(2) v'(2) chain prim by (cases v) auto
    from regs_method_name[OF v'(1)] obtain k' where
      k': "k' < length ms" "best = method_name name w0 k'" "0 < length (fst (ms ! k'))"
        "v' = fst (ms ! k') ! 0" by blast
    have d: "lookup p ?h args = Inr (Some (snd (ms ! k')))
        \<and> dispatch p ?h args = Inr (snd (ms ! k') args)"
      using dispatch_best[OF loop, of best "snd (ms ! k')"] lookup_best[OF loop, of best]
        best fr(4)[OF k'(1)] k'(2) by simp
    have "k' = k"
      if "\<forall>j < length ms. j \<noteq> k \<and> fst (ms ! j) \<noteq> [] \<longrightarrow>
                  fst (ms ! j) ! 0 \<notin> {v, Ref c, Ref ANY, Ref FUNPROTO, Ref OBJPROTO}"
      using that k' seen by auto
    with d k'(1) show ?thesis by blast
  qed
  from wk first second show ?thesis by blast
qed

theorem primitive_matches_type_marker_witness:
  "\<exists>p w. std (heap test_world) \<and> roles_drawn test_world
     \<and> add_methods (procedure ''Unboxed number-test-proc'' test_world)
          [([Ref STRING], \<lambda>_. ''string''), ([Ref NUMBER], \<lambda>_. ''number''),
           ([Str ''foo''], \<lambda>_. ''foo'')] = Inr (p, w)
     \<and> plain_methods [([Ref STRING], \<lambda>_ :: val list. ''string''), ([Ref NUMBER], \<lambda>_. ''number''),
           ([Str ''foo''], \<lambda>_. ''foo'')]
     \<and> list_all plain [Num 56]
     \<and> (\<forall>a \<in> set [Num 56]. top_level (heap test_world) a)
     \<and> (\<exists>s rk. for_loop p (heap w) [Num 56] 0 init_state = Inr s
            \<and> ranks s (method_name ''Unboxed number-test-proc'' test_world 1) = Some rk
            \<and> 0 < length (vector rk) \<and> vector rk ! 0 = Some 1)
     \<and> dispatch p (heap w) [Num 56] = Inr ''number''"
proof -
  let ?ms = "[([Ref STRING], \<lambda>_. ''string''), ([Ref NUMBER], \<lambda>_. ''number''),
           ([Str ''foo''], \<lambda>_. ''foo'')] :: (val list \<times> (val list \<Rightarrow> string)) list"
  have std: "std (heap test_world)" by code_simp
  have "no_roles (heap test_world)" by code_simp
  then have rd: "roles_drawn test_world" by (rule no_roles_drawn)
  have "\<not> isl (add_methods (procedure ''Unboxed number-test-proc'' test_world) ?ms)"
    by code_simp
  from not_isl_pair[OF this] obtain p w where
    am: "add_methods (procedure ''Unboxed number-test-proc'' test_world) ?ms = Inr (p, w)"
    by blast
  have pm: "plain_methods ?ms" by code_simp
  have pa: "list_all plain [Num 56]" by simp
  have tl: "\<forall>a \<in> set [Num 56]. top_level (heap test_world) a"
    using std_top_level_prim[OF std] by simp
  have others: "\<forall>j < length ?ms. j \<noteq> 1 \<and> fst (?ms ! j) \<noteq> [] \<longrightarrow>
      fst (?ms ! j) ! 0 \<notin> {Num 56, Ref NUMBER, Ref ANY, Ref FUNPROTO, Ref OBJPROTO}"
    by (simp add: less_Suc_eq builtin_defs nth_Cons split: nat.splits)
  from primitive_matches_type_marker[OF std rd am pm pa tl, of 1 0 NUMBER "Num 56" 56 "''''" False]
    others
  have "(\<exists>s rk. for_loop p (heap w) [Num 56] 0 init_state = Inr s
            \<and> ranks s (method_name ''Unboxed number-test-proc'' test_world 1) = Some rk
            \<and> 0 < length (vector rk) \<and> vector rk ! 0 = Some 1)
     \<and> dispatch p (heap w) [Num 56] = Inr ''number''"
    by simp
  with std rd am pm pa tl show ?thesis by blast
qed

text \<open>
  C6 (as the code behaves).  A method registered for the object \<^verbatim>\<open>Object.prototype\<close> is
  called with the number 5.  The walk of 5 visits 5, \<^verbatim>\<open>Number\<close> and \<^verbatim>\<open>ANY\<close>, not
  \<^verbatim>\<open>Object.prototype\<close>; but \<^verbatim>\<open>get_table\<close> reads \<^verbatim>\<open>__roles__\<close> of \<^verbatim>\<open>Number\<close> along the prototype
  links and finds the table of \<^verbatim>\<open>Object.prototype\<close>, so the method is applied to a different
  value.  The examples of the claim behave as it says: \<^verbatim>\<open>'bar'\<close> does not match a method
  for \<^verbatim>\<open>'foo'\<close>, and \<^verbatim>\<open>new Super()\<close> does not match a method for \<^verbatim>\<open>Sub\<close>.
\<close>

theorem inherited_roles_match_unvisited_owner:
  "(case add_methods (procedure ''p'' test_world) [([Ref OBJPROTO], \<lambda>_. ''op'')] of
      Inr (p, w) \<Rightarrow>
        (case walk p (heap w) 0 0 [(True, Num 5)] of
           Inr (visited, left) \<Rightarrow>
             map snd visited = [Num 5, Ref NUMBER, Ref ANY] \<and> left = []
             \<and> dispatch p (heap w) [Num 5] = Inr ''op''
         | Inl e \<Rightarrow> False)
    | Inl e \<Rightarrow> False)
   \<and> run_test ''p'' [([Str ''foo''], \<lambda>_. ''f'')] [Str ''bar''] = Inl NoApplicableMethod
   \<and> run_test ''p'' [([Ref SUB], \<lambda>_. ''sub'')] [Ref NEW_SUPER] = Inl NoApplicableMethod"
  by code_simp







text \<open>
  C9 (as the code behaves).  Registering a method whose specializer is \<^verbatim>\<open>undefined\<close> throws
  a TypeError: \<^verbatim>\<open>get_table\<close> reaches \<^verbatim>\<open>value.hasOwnProperty\<close> with the value undefined.
  Registering for \<^verbatim>\<open>null\<close> succeeds.
\<close>

theorem method_on_undefined_throws:
  "(case procedure ''Undefined-test-proc'' test_world of
      (p, w) \<Rightarrow>
        (case method_reg p w [Undefined] (\<lambda>_ :: val list. ''done'') of
           Inl e \<Rightarrow> e = TypeError
         | Inr pw \<Rightarrow> False))
   \<and> (case procedure ''Null-test-proc'' test_world of
      (p, w) \<Rightarrow> \<not> isl (method_reg p w [Null] (\<lambda>_ :: val list. ''done'')))"
  by code_simp

text \<open>
  C10.  A call with \<^verbatim>\<open>null\<close> or \<^verbatim>\<open>undefined\<close> among the arguments throws a TypeError from
  inside the walk, whatever the procedure and the heap: for \<^verbatim>\<open>undefined\<close> at
  \<^verbatim>\<open>value.hasOwnProperty\<close> in \<^verbatim>\<open>get_table\<close>, for \<^verbatim>\<open>null\<close> at \<^verbatim>\<open>arg.constructor\<close>.  It
  is never the no-applicable-method condition and never a result, also when a method was
  registered for \<^verbatim>\<open>null\<close> itself.
\<close>

theorem dispatch_null_undefined:
  assumes "Null \<in> set args \<or> Undefined \<in> set args"
  shows "dispatch p h args = Inl TypeError"
proof -
  from assms obtain j where "j < length args" "args ! j = Null \<or> args ! j = Undefined"
    by (auto simp: in_set_conv_nth)
  then have "for_walk p h args 0 [] = Inl TypeError"
    by (rule for_walk_null_undefined) simp
  then show ?thesis by (simp add: dispatch_def lookup_def init_state_def for_loop_walk)
qed

theorem dispatch_null_undefined_witness:
  "(Null \<in> set [Null] \<or> Undefined \<in> set [Null]) \<and>
   run_test ''Null-test-proc'' [([Null], \<lambda>_. ''done'')] [Null] = Inl TypeError"
proof -
  have "\<not> isl (add_methods (procedure ''Null-test-proc'' test_world)
                  [([Null], \<lambda>_ :: val list. ''done'')])"
    by code_simp
  from not_isl_pair[OF this] obtain p w where
    "add_methods (procedure ''Null-test-proc'' test_world)
       [([Null], \<lambda>_ :: val list. ''done'')] = Inr (p, w)"
    by blast
  then show ?thesis
    using dispatch_null_undefined[of "[Null]" p "heap w"]
    by (simp add: run_test_def run_on_def)
qed

end
